theory Spec2Isabelle
  imports Main
begin

section \<open>Text, runes and panics\<close>

text \<open>
  The program works on \<^verbatim>\<open>[]rune\<close>: sequences of Unicode code points, indexed from 0.
  A rune is modelled as a natural number, a text as a list of runes, and an ASCII
  literal of the source is written \<open>runes ''...''\<close>. A Go panic carries its message;
  a function that may panic returns \<open>Inl message\<close>.
\<close>

type_synonym rune = nat
type_synonym error = "rune list"

definition runes :: "string \<Rightarrow> rune list" where
  "runes s = map of_char s"

abbreviation (input) dollar :: rune where "dollar \<equiv> 36"
abbreviation (input) lbrace :: rune where "lbrace \<equiv> 123"
abbreviation (input) rbrace :: rune where "rbrace \<equiv> 125"
abbreviation (input) backslash :: rune where "backslash \<equiv> 92"
abbreviation (input) squote :: rune where "squote \<equiv> 39"
abbreviation (input) dquote :: rune where "dquote \<equiv> 34"
abbreviation (input) newline :: rune where "newline \<equiv> 10"

text \<open>\<^verbatim>\<open>payload[a:b]\<close> for \<open>a \<le> b \<le> len(payload)\<close>.\<close>

definition slice :: "'a list \<Rightarrow> nat \<Rightarrow> nat \<Rightarrow> 'a list" where
  "slice xs a b = take (b - a) (drop a xs)"

definition is_char :: "rune list \<Rightarrow> nat \<Rightarrow> rune \<Rightarrow> bool" where
  "is_char t p c \<longleftrightarrow> p < length t \<and> t ! p = c"

section \<open>Strings, bytes and runes\<close>

text \<open>
  A Go string is a sequence of bytes. \<^verbatim>\<open>[]rune(s)\<close> decodes it as UTF-8: one rune for each
  well-formed sequence, and \<^verbatim>\<open>U+FFFD\<close> for each byte that starts none. \<^verbatim>\<open>string(runes)\<close>
  encodes the runes, and writes \<^verbatim>\<open>U+FFFD\<close> for a surrogate and for a value above
  \<^verbatim>\<open>U+10FFFF\<close>. A byte is modelled as a natural number (a file holds numbers below 256),
  and an ASCII literal, as bytes, is written \<open>asciiBytes ''...''\<close>.

  \<open>decodeSequence\<close> is the well-formed sequence at the head of the bytes, with its length,
  as \<^verbatim>\<open>utf8.DecodeRune\<close> reads it: the first byte gives the length and the range of the
  second byte (which excludes the overlong forms, the surrogates and the values above
  \<^verbatim>\<open>U+10FFFF\<close>); the other bytes are continuation bytes.
\<close>

type_synonym byte = nat

definition asciiBytes :: "string \<Rightarrow> byte list" where
  "asciiBytes s = map of_char s"

definition continuation :: "byte \<Rightarrow> bool" where
  "continuation b \<longleftrightarrow> 128 \<le> b \<and> b \<le> 191"

definition acceptLo :: "byte \<Rightarrow> byte" where
  "acceptLo b0 = (if b0 = 224 then 160 else if b0 = 240 then 144 else 128)"

definition acceptHi :: "byte \<Rightarrow> byte" where
  "acceptHi b0 = (if b0 = 237 then 159 else if b0 = 244 then 143 else 191)"

fun decodeSequence :: "byte list \<Rightarrow> (rune \<times> nat) option" where
  "decodeSequence [] = None"
| "decodeSequence (b0 # bs) =
     (if b0 < 128 then Some (b0, 1)
      else if 194 \<le> b0 \<and> b0 \<le> 223 then
        (case bs of
           b1 # _ \<Rightarrow> if continuation b1 then Some ((b0 - 192) * 64 + (b1 - 128), 2) else None
         | _ \<Rightarrow> None)
      else if 224 \<le> b0 \<and> b0 \<le> 239 then
        (case bs of
           b1 # b2 # _ \<Rightarrow>
             if acceptLo b0 \<le> b1 \<and> b1 \<le> acceptHi b0 \<and> continuation b2
             then Some ((b0 - 224) * 4096 + (b1 - 128) * 64 + (b2 - 128), 3) else None
         | _ \<Rightarrow> None)
      else if 240 \<le> b0 \<and> b0 \<le> 244 then
        (case bs of
           b1 # b2 # b3 # _ \<Rightarrow>
             if acceptLo b0 \<le> b1 \<and> b1 \<le> acceptHi b0 \<and> continuation b2 \<and> continuation b3
             then Some ((b0 - 240) * 262144 + (b1 - 128) * 4096 + (b2 - 128) * 64 + (b3 - 128), 4)
             else None
         | _ \<Rightarrow> None)
      else None)"

abbreviation (input) RuneError :: rune where "RuneError \<equiv> 65533"

text \<open>\<^verbatim>\<open>utf8.DecodeRune\<close>: the rune at the head and its width; \<^verbatim>\<open>(RuneError, 1)\<close> for a byte
  that starts no well-formed sequence.\<close>

definition DecodeRune :: "byte list \<Rightarrow> rune \<times> nat" where
  "DecodeRune p = (case decodeSequence p of Some (r, n) \<Rightarrow> (r, n) | None \<Rightarrow> (RuneError, 1))"

lemma decodeSequence_size:
  "decodeSequence p = Some (r, n) \<Longrightarrow> 1 \<le> n \<and> n \<le> length p"
  by (cases p) (auto split: if_splits list.splits)

lemma DecodeRune_size: "1 \<le> snd (DecodeRune p)"
  by (auto simp: DecodeRune_def split: option.splits dest: decodeSequence_size)

text \<open>\<^verbatim>\<open>[]rune(s)\<close>.\<close>

function decodeRunes :: "byte list \<Rightarrow> rune list" where
  "decodeRunes p =
     (if p = [] then []
      else fst (DecodeRune p) # decodeRunes (drop (snd (DecodeRune p)) p))"
  by pat_completeness auto
termination
  using DecodeRune_size by (relation "measure length") (auto simp: Suc_le_eq)

declare decodeRunes.simps [simp del]

text \<open>\<^verbatim>\<open>string(r)\<close> for one rune, and \<^verbatim>\<open>string(runes)\<close>.\<close>

definition encodeRune :: "rune \<Rightarrow> byte list" where
  "encodeRune r =
     (if r < 128 then [r]
      else if r < 2048 then [192 + r div 64, 128 + r mod 64]
      else if 1114111 < r \<or> (55296 \<le> r \<and> r \<le> 57343) then [239, 191, 189]
      else if r < 65536 then [224 + r div 4096, 128 + r div 64 mod 64, 128 + r mod 64]
      else [240 + r div 262144, 128 + r div 4096 mod 64, 128 + r div 64 mod 64, 128 + r mod 64])"

definition encodeRunes :: "rune list \<Rightarrow> byte list" where
  "encodeRunes rs = concat (map encodeRune rs)"

text \<open>\<^verbatim>\<open>utf8.Valid\<close>: the bytes are a sequence of well-formed sequences.\<close>

function validUTF8 :: "byte list \<Rightarrow> bool" where
  "validUTF8 p =
     (if p = [] then True
      else case decodeSequence p of
             None \<Rightarrow> False
           | Some (r, n) \<Rightarrow> validUTF8 (drop n p))"
  by pat_completeness auto
termination
  by (relation "measure length") (auto dest!: decodeSequence_size simp: Suc_le_eq)

declare validUTF8.simps [simp del]

section \<open>The regular expressions of the source, as matchers\<close>

text \<open>
  The source delegates all scanning to backtracking regular expressions (regexp2, the
  .NET dialect). Each pattern is embedded as a function that tries the alternatives of
  the pattern in the pattern's order at a position of the text and returns the position
  after the match.

  \<^verbatim>\<open>unescapedToken = (?<=(?:[^\\]|^)(?:[\\]{2})*)\<close>: a lookbehind at position \<open>p\<close>.
  Read from \<open>p\<close> to the left: pairs of backslashes, then a character that is not a
  backslash, or the start of the text.
\<close>

fun unescapedToken :: "rune list \<Rightarrow> nat \<Rightarrow> bool" where
  "unescapedToken t p =
     (if p = 0 then True
      else if t ! (p - 1) \<noteq> backslash then True
      else if 2 \<le> p \<and> t ! (p - 2) = backslash then unescapedToken t (p - 2)
      else False)"

declare unescapedToken.simps [simp del]

subsection \<open>The quote tokenizer pattern\<close>

text \<open>
  \<^verbatim>\<open>(?<singleQuoted>U'([\n\r]|.)*?')|(?<doubleQuoted>U"([\n\r]|.)*?U")\<close> where \<^verbatim>\<open>U\<close>
  is \<^verbatim>\<open>unescapedToken\<close>. \<^verbatim>\<open>([\n\r]|.)\<close> takes any rune. The lazy loop stops at the first
  position where the rest of the pattern matches: any single quote for the first
  alternative, an unescaped double quote for the second.
\<close>

function lazyToSingle :: "rune list \<Rightarrow> nat \<Rightarrow> nat option" where
  "lazyToSingle t p =
     (if length t \<le> p then None
      else if t ! p = squote then Some (p + 1)
      else lazyToSingle t (p + 1))"
  by pat_completeness auto
termination
  by (relation "measure (\<lambda>(t, p). length t - p)") auto

declare lazyToSingle.simps [simp del]

function lazyToDouble :: "rune list \<Rightarrow> nat \<Rightarrow> nat option" where
  "lazyToDouble t p =
     (if length t \<le> p then None
      else if t ! p = dquote \<and> unescapedToken t p then Some (p + 1)
      else lazyToDouble t (p + 1))"
  by pat_completeness auto
termination
  by (relation "measure (\<lambda>(t, p). length t - p)") auto

declare lazyToDouble.simps [simp del]

text \<open>
  A match of the tokenizer pattern: \<^verbatim>\<open>m.Index\<close>, \<^verbatim>\<open>m.Length\<close> and the lengths of the two
  named groups (0 for a group that did not take part).
\<close>

record QuoteMatch =
  qIndex :: nat
  qLength :: nat
  qSingle :: nat
  qDouble :: nat

definition quoteMatchAt :: "rune list \<Rightarrow> nat \<Rightarrow> QuoteMatch option" where
  "quoteMatchAt t p =
     (case (if is_char t p squote \<and> unescapedToken t p then lazyToSingle t (p + 1) else None) of
        Some e \<Rightarrow> Some \<lparr>qIndex = p, qLength = e - p, qSingle = e - p, qDouble = 0\<rparr>
      | None \<Rightarrow>
         (case (if is_char t p dquote \<and> unescapedToken t p then lazyToDouble t (p + 1) else None) of
            Some e \<Rightarrow> Some \<lparr>qIndex = p, qLength = e - p, qSingle = 0, qDouble = e - p\<rparr>
          | None \<Rightarrow> None))"

text \<open>The engine tries the start positions from \<open>p\<close> on, left to right.\<close>

function findQuote :: "rune list \<Rightarrow> nat \<Rightarrow> QuoteMatch option" where
  "findQuote t p =
     (if length t < p then None
      else case quoteMatchAt t p of
             Some m \<Rightarrow> Some m
           | None \<Rightarrow> findQuote t (p + 1))"
  by pat_completeness auto
termination
  by (relation "measure (\<lambda>(t, p). Suc (length t) - p)") auto

declare findQuote.simps [simp del]

text \<open>
  \<^verbatim>\<open>FindNextMatch\<close> resumes at the end of the previous match, one further when that
  match was empty; the lookbehinds still see the whole text.
\<close>

definition nextQuote :: "rune list \<Rightarrow> QuoteMatch \<Rightarrow> QuoteMatch option" where
  "nextQuote t m =
     findQuote t (qIndex m + qLength m + (if qLength m = 0 then 1 else 0))"

section \<open>Segments and the tokenizer\<close>

datatype SegmentType = unQuoted | singleQuoted | doubleQuoted

record Segment =
  Position :: "nat \<times> nat"
  SegmentType :: SegmentType

lemma lazyToSingle_bounds:
  "lazyToSingle t p = Some e \<Longrightarrow> p < e \<and> e \<le> length t"
  by (induction t p rule: lazyToSingle.induct)
     (subst (asm) lazyToSingle.simps, auto split: if_splits)

lemma lazyToDouble_bounds:
  "lazyToDouble t p = Some e \<Longrightarrow> p < e \<and> e \<le> length t"
  by (induction t p rule: lazyToDouble.induct)
     (subst (asm) lazyToDouble.simps, auto split: if_splits)

lemma quoteMatchAt_bounds:
  assumes "quoteMatchAt t p = Some m"
  shows "qIndex m = p \<and> 2 \<le> qLength m \<and> p + qLength m \<le> length t"
  using assms lazyToSingle_bounds [of t "p + 1"] lazyToDouble_bounds [of t "p + 1"]
  by (auto simp: quoteMatchAt_def split: option.splits if_splits)

lemma findQuote_bounds:
  "findQuote t p = Some m \<Longrightarrow>
     p \<le> qIndex m \<and> 2 \<le> qLength m \<and> qIndex m + qLength m \<le> length t"
proof (induction t p rule: findQuote.induct)
  case (1 t p)
  show ?case
  proof (cases "quoteMatchAt t p")
    case None
    with "1.prems" have "findQuote t (p + 1) = Some m" "\<not> length t < p"
      by (subst (asm) findQuote.simps, simp split: if_splits)+
    with "1.IH" None show ?thesis by fastforce
  next
    case (Some m')
    with "1.prems" have "m' = m"
      by (subst (asm) findQuote.simps, simp split: if_splits)
    with Some quoteMatchAt_bounds [of t p m] show ?thesis by simp
  qed
qed

function tokenizeLoop ::
  "rune list \<Rightarrow> QuoteMatch option \<Rightarrow> nat \<Rightarrow> Segment list \<Rightarrow> error + Segment list" where
  "tokenizeLoop payload None lastIndex segments =
     Inr (if lastIndex \<noteq> length payload
          then segments @ [\<lparr>Position = (lastIndex, length payload), SegmentType = unQuoted\<rparr>]
          else segments)"
| "tokenizeLoop payload (Some m) lastIndex segments =
     (let segments1 =
            (if lastIndex \<noteq> qIndex m
             then segments @ [\<lparr>Position = (lastIndex, qIndex m), SegmentType = unQuoted\<rparr>]
             else segments);
          lastIndex' = qIndex m + qLength m
      in if 0 < qSingle m then
           tokenizeLoop payload (nextQuote payload m) lastIndex'
             (segments1 @ [\<lparr>Position = (qIndex m, lastIndex'), SegmentType = singleQuoted\<rparr>])
         else if 0 < qDouble m then
           tokenizeLoop payload (nextQuote payload m) lastIndex'
             (segments1 @ [\<lparr>Position = (qIndex m, lastIndex'), SegmentType = doubleQuoted\<rparr>])
         else Inl (runes ''could not parse quotes''))"
  by pat_completeness auto
termination
  apply (relation "measure (\<lambda>(t, mo, l, s). case mo of None \<Rightarrow> 0 | Some m \<Rightarrow> Suc (Suc (length t) - qIndex m))")
    apply simp
   apply (auto simp: nextQuote_def split: option.splits dest!: findQuote_bounds)
  done

definition tokenizeByQuotes :: "rune list \<Rightarrow> error + Segment list" where
  "tokenizeByQuotes payload = tokenizeLoop payload (findQuote payload 0) 0 []"

fun chain :: "nat \<Rightarrow> Segment list \<Rightarrow> nat \<Rightarrow> bool" where
  "chain a [] b \<longleftrightarrow> a = b"
| "chain a (s # ss) b \<longleftrightarrow>
     fst (Position s) = a \<and> a < snd (Position s) \<and> chain (snd (Position s)) ss b"

lemma chain_snoc:
  "chain a (ss @ [s]) c \<longleftrightarrow> (\<exists>b. chain a ss b \<and> Position s = (b, c) \<and> b < c)"
  by (induction ss arbitrary: a) (auto simp: prod_eq_iff)

definition quotedAt :: "rune list \<Rightarrow> Segment \<Rightarrow> bool" where
  "quotedAt t s =
     (case SegmentType s of
        unQuoted \<Rightarrow> True
      | singleQuoted \<Rightarrow>
          is_char t (fst (Position s)) squote \<and> unescapedToken t (fst (Position s)) \<and>
          lazyToSingle t (fst (Position s) + 1) = Some (snd (Position s))
      | doubleQuoted \<Rightarrow>
          is_char t (fst (Position s)) dquote \<and> unescapedToken t (fst (Position s)) \<and>
          lazyToDouble t (fst (Position s) + 1) = Some (snd (Position s)))"

definition matchedAt :: "rune list \<Rightarrow> QuoteMatch \<Rightarrow> bool" where
  "matchedAt t m \<longleftrightarrow> quoteMatchAt t (qIndex m) = Some m"

lemma findQuote_matchedAt:
  "findQuote t p = Some m \<Longrightarrow> matchedAt t m"
proof (induction t p rule: findQuote.induct)
  case (1 t p)
  show ?case
  proof (cases "quoteMatchAt t p")
    case None
    with "1.prems" have "findQuote t (p + 1) = Some m" "\<not> length t < p"
      by (subst (asm) findQuote.simps, simp split: if_splits)+
    with "1.IH" None show ?thesis by fastforce
  next
    case (Some m')
    with "1.prems" have "m' = m"
      by (subst (asm) findQuote.simps, simp split: if_splits)
    with Some quoteMatchAt_bounds [of t p m] show ?thesis by (simp add: matchedAt_def)
  qed
qed

lemma quoteMatchAt_cases:
  assumes "quoteMatchAt t p = Some m"
  shows "(\<exists>e. is_char t p squote \<and> unescapedToken t p \<and> lazyToSingle t (p + 1) = Some e \<and>
              m = \<lparr>qIndex = p, qLength = e - p, qSingle = e - p, qDouble = 0\<rparr>)
       \<or> (\<exists>e. is_char t p dquote \<and> unescapedToken t p \<and> lazyToDouble t (p + 1) = Some e \<and>
              m = \<lparr>qIndex = p, qLength = e - p, qSingle = 0, qDouble = e - p\<rparr>)"
  using assms unfolding quoteMatchAt_def
  by (auto split: option.splits if_splits)

lemma matchedAt_cases:
  assumes "matchedAt t m"
  shows "(0 < qSingle m \<and> quotedAt t \<lparr>Position = (qIndex m, qIndex m + qLength m), SegmentType = singleQuoted\<rparr>)
       \<or> (qSingle m = 0 \<and> 0 < qDouble m \<and> quotedAt t \<lparr>Position = (qIndex m, qIndex m + qLength m), SegmentType = doubleQuoted\<rparr>)"
proof -
  from assms have q: "quoteMatchAt t (qIndex m) = Some m" by (simp add: matchedAt_def)
  from quoteMatchAt_cases [OF q] show ?thesis
  proof (elim disjE exE conjE)
    fix e assume a: "is_char t (qIndex m) squote" "unescapedToken t (qIndex m)"
      "lazyToSingle t (qIndex m + 1) = Some e"
      and m: "m = \<lparr>qIndex = qIndex m, qLength = e - qIndex m, qSingle = e - qIndex m, qDouble = 0\<rparr>"
    from lazyToSingle_bounds [OF a(3)] have e: "qIndex m + 1 < e" by simp
    have "qLength m = e - qIndex m" "qSingle m = e - qIndex m" by (subst m, simp)+
    with a e show ?thesis by (simp add: quotedAt_def)
  next
    fix e assume a: "is_char t (qIndex m) dquote" "unescapedToken t (qIndex m)"
      "lazyToDouble t (qIndex m + 1) = Some e"
      and m: "m = \<lparr>qIndex = qIndex m, qLength = e - qIndex m, qSingle = 0, qDouble = e - qIndex m\<rparr>"
    from lazyToDouble_bounds [OF a(3)] have e: "qIndex m + 1 < e" by simp
    have "qLength m = e - qIndex m" "qDouble m = e - qIndex m" "qSingle m = 0" by (subst m, simp)+
    with a e show ?thesis by (simp add: quotedAt_def)
  qed
qed

lemma tokenizeLoop_inv:
  assumes "chain 0 segs l" "l \<le> length t" "\<forall>s\<in>set segs. quotedAt t s"
    and "\<forall>m. mo = Some m \<longrightarrow> matchedAt t m \<and> l \<le> qIndex m"
  shows "\<exists>r. tokenizeLoop t mo l segs = Inr r \<and> chain 0 r (length t) \<and> (\<forall>s\<in>set r. quotedAt t s)"
  using assms
proof (induction t mo l segs rule: tokenizeLoop.induct)
  case (1 payload lastIndex segments)
  then show ?case by (auto simp: chain_snoc quotedAt_def)
next
  case (2 payload m lastIndex segments)
  define segs1 where "segs1 = (if lastIndex \<noteq> qIndex m
             then segments @ [\<lparr>Position = (lastIndex, qIndex m), SegmentType = unQuoted\<rparr>]
             else segments)"
  from "2.prems" have m: "matchedAt payload m" and le: "lastIndex \<le> qIndex m" by auto
  from m have b: "2 \<le> qLength m" "qIndex m + qLength m \<le> length payload"
    using quoteMatchAt_bounds [of payload "qIndex m" m] by (auto simp: matchedAt_def)
  have c1: "chain 0 segs1 (qIndex m)" using "2.prems"(1) le
    by (auto simp: segs1_def chain_snoc)
  have q1: "\<forall>s\<in>set segs1. quotedAt payload s" using "2.prems"(3)
    by (auto simp: segs1_def quotedAt_def)
  have nx: "\<forall>m'. nextQuote payload m = Some m' \<longrightarrow> matchedAt payload m' \<and> qIndex m + qLength m \<le> qIndex m'"
    using findQuote_matchedAt findQuote_bounds b unfolding nextQuote_def by fastforce
  from matchedAt_cases [OF m] show ?case
  proof
    assume s: "0 < qSingle m \<and> quotedAt payload \<lparr>Position = (qIndex m, qIndex m + qLength m), SegmentType = singleQuoted\<rparr>"
    have "\<exists>r. tokenizeLoop payload (nextQuote payload m) (qIndex m + qLength m)
             (segs1 @ [\<lparr>Position = (qIndex m, qIndex m + qLength m), SegmentType = singleQuoted\<rparr>]) = Inr r
            \<and> chain 0 r (length payload) \<and> (\<forall>s\<in>set r. quotedAt payload s)"
      apply (rule "2.IH"(1) [OF segs1_def refl])
      using s c1 b q1 nx by (auto simp: chain_snoc)
    then show ?thesis using s by (simp add: segs1_def Let_def)
  next
    assume s: "qSingle m = 0 \<and> 0 < qDouble m \<and> quotedAt payload \<lparr>Position = (qIndex m, qIndex m + qLength m), SegmentType = doubleQuoted\<rparr>"
    have "\<exists>r. tokenizeLoop payload (nextQuote payload m) (qIndex m + qLength m)
             (segs1 @ [\<lparr>Position = (qIndex m, qIndex m + qLength m), SegmentType = doubleQuoted\<rparr>]) = Inr r
            \<and> chain 0 r (length payload) \<and> (\<forall>s\<in>set r. quotedAt payload s)"
      apply (rule "2.IH"(2) [OF segs1_def refl])
      using s c1 b q1 nx by (auto simp: chain_snoc)
    then show ?thesis using s by (simp add: segs1_def Let_def)
  qed
qed

lemma tokenizeByQuotes_inv:
  "\<exists>r. tokenizeByQuotes t = Inr r \<and> chain 0 r (length t) \<and> (\<forall>s\<in>set r. quotedAt t s)"
  unfolding tokenizeByQuotes_def
  apply (rule tokenizeLoop_inv)
  using findQuote_matchedAt by auto

subsection \<open>Parameter names\<close>

text \<open>
  \<^verbatim>\<open>paramName = [A-Za-z_][A-Za-z0-9_]*\<close>, taken greedily: \<open>paramName t p\<close> is the position
  after the longest name at \<open>p\<close>. The engine could give back runes of the name, but
  never with success: after a shorter name comes a rune of the name, which is neither
  \<^verbatim>\<open>=\<close>, \<^verbatim>\<open>}\<close> nor the start of an operator, and which the loop of the finder pattern takes
  with \<^verbatim>\<open>[^$}]\<close>, one by one, up to the end of the longest name.
\<close>

definition nameStart :: "rune \<Rightarrow> bool" where
  "nameStart c \<longleftrightarrow> (65 \<le> c \<and> c \<le> 90) \<or> (97 \<le> c \<and> c \<le> 122) \<or> c = 95"

definition nameChar :: "rune \<Rightarrow> bool" where
  "nameChar c \<longleftrightarrow> nameStart c \<or> (48 \<le> c \<and> c \<le> 57)"

function nameRest :: "rune list \<Rightarrow> nat \<Rightarrow> nat" where
  "nameRest t p = (if p < length t \<and> nameChar (t ! p) then nameRest t (p + 1) else p)"
  by pat_completeness auto
termination
  by (relation "measure (\<lambda>(t, p). length t - p)") auto

declare nameRest.simps [simp del]

definition paramName :: "rune list \<Rightarrow> nat \<Rightarrow> nat option" where
  "paramName t p = (if p < length t \<and> nameStart (t ! p) then Some (nameRest t (p + 1)) else None)"

lemma nameRest_ge: "p \<le> nameRest t p"
  by (induction t p rule: nameRest.induct) (subst nameRest.simps, auto)

lemma nameRest_le: "p \<le> length t \<Longrightarrow> nameRest t p \<le> length t"
  by (induction t p rule: nameRest.induct) (subst nameRest.simps, auto)

lemma paramName_bounds: "paramName t p = Some q \<Longrightarrow> p < q \<and> q \<le> length t"
  using nameRest_ge [of "p + 1" t] nameRest_le [of "p + 1" t]
  by (auto simp: paramName_def split: if_splits)

subsection \<open>The parameter finder pattern\<close>

text \<open>
  \<^verbatim>\<open>paramFinderPattern = U\$(?<bare>NAME)|BRACED\<close>, where \<^verbatim>\<open>BRACED\<close> is
  \<^verbatim>\<open>U\$\{(?<braced>NAME)\<close>, then the loop
  \<^verbatim>\<open>(?:(?<braceDepth>U\$\{NAME)|(?:U[$](?!\{)|[^$}]|U\\[$])|(?<-braceDepth>\}))*\<close>, then
  \<^verbatim>\<open>(?(braceDepth)(?!))\}\<close>.

  \<open>bracedTail t p depth\<close> is the loop and the end of the pattern from position \<open>p\<close>, with
  \<open>depth\<close> captures of \<^verbatim>\<open>braceDepth\<close> on the stack. It tries the five items in the order of the
  pattern, each followed by the rest of the loop, and goes on to the next item when
  that fails: an unescaped \<^verbatim>\<open>${\<close> with a name, which pushes; an unescaped \<^verbatim>\<open>$\<close> not followed
  by \<^verbatim>\<open>{\<close>; a rune other than \<^verbatim>\<open>$\<close> and \<^verbatim>\<open>}\<close>; an unescaped backslash followed by \<^verbatim>\<open>$\<close>; a
  \<^verbatim>\<open>}\<close> that pops, which needs a capture. When no item leads to a match the loop ends, and
  the pattern asks for an empty stack and a closing brace. The result is the position
  after the match.
\<close>

function bracedTail :: "rune list \<Rightarrow> nat \<Rightarrow> nat \<Rightarrow> nat option" where
  "bracedTail t p depth =
     (if length t \<le> p then None
      else
      case (if is_char t p dollar \<and> unescapedToken t p \<and> is_char t (p + 1) lbrace
            then (case paramName t (p + 2) of
                    Some q \<Rightarrow> bracedTail t q (depth + 1)
                  | None \<Rightarrow> None)
            else None) of
        Some e \<Rightarrow> Some e
      | None \<Rightarrow>
      case (if is_char t p dollar \<and> unescapedToken t p \<and> \<not> is_char t (p + 1) lbrace
            then bracedTail t (p + 1) depth else None) of
        Some e \<Rightarrow> Some e
      | None \<Rightarrow>
      case (if t ! p \<noteq> dollar \<and> t ! p \<noteq> rbrace
            then bracedTail t (p + 1) depth else None) of
        Some e \<Rightarrow> Some e
      | None \<Rightarrow>
      case (if t ! p = backslash \<and> unescapedToken t p \<and> is_char t (p + 1) dollar
            then bracedTail t (p + 2) depth else None) of
        Some e \<Rightarrow> Some e
      | None \<Rightarrow>
      case (if t ! p = rbrace \<and> 0 < depth
            then bracedTail t (p + 1) (depth - 1) else None) of
        Some e \<Rightarrow> Some e
      | None \<Rightarrow>
      if depth = 0 \<and> t ! p = rbrace then Some (p + 1) else None)"
  by pat_completeness auto
termination
  apply (relation "measure (\<lambda>(t, p, d). length t - p)")
  apply (auto dest!: paramName_bounds)
  done

declare bracedTail.simps [simp del]

text \<open>
  A match of the finder pattern: \<^verbatim>\<open>Index\<close>, \<^verbatim>\<open>Length\<close> and the texts of the groups \<^verbatim>\<open>bare\<close> and
  \<^verbatim>\<open>braced\<close> (empty for a group that did not take part). \<open>finderAt\<close> tries the two
  alternatives at one position, \<open>findParam\<close> the positions from left to right, and
  \<open>nextParam\<close> is \<^verbatim>\<open>FindNextMatch\<close>.
\<close>

record FinderMatch =
  fIndex :: nat
  fLength :: nat
  bare :: "rune list"
  braced :: "rune list"

definition finderAt :: "rune list \<Rightarrow> nat \<Rightarrow> FinderMatch option" where
  "finderAt t p =
     (case (if is_char t p dollar \<and> unescapedToken t p then paramName t (p + 1) else None) of
        Some e \<Rightarrow> Some \<lparr>fIndex = p, fLength = e - p, bare = slice t (p + 1) e, braced = []\<rparr>
      | None \<Rightarrow>
         (case (if is_char t p dollar \<and> unescapedToken t p \<and> is_char t (p + 1) lbrace
                then paramName t (p + 2) else None) of
            Some q \<Rightarrow>
              (case bracedTail t q 0 of
                 Some e \<Rightarrow> Some \<lparr>fIndex = p, fLength = e - p, bare = [], braced = slice t (p + 2) q\<rparr>
               | None \<Rightarrow> None)
          | None \<Rightarrow> None))"

function findParam :: "rune list \<Rightarrow> nat \<Rightarrow> FinderMatch option" where
  "findParam t p =
     (if length t < p then None
      else case finderAt t p of
             Some m \<Rightarrow> Some m
           | None \<Rightarrow> findParam t (p + 1))"
  by pat_completeness auto
termination
  by (relation "measure (\<lambda>(t, p). Suc (length t) - p)") auto

declare findParam.simps [simp del]

definition nextParam :: "rune list \<Rightarrow> FinderMatch \<Rightarrow> FinderMatch option" where
  "nextParam t m =
     findParam t (fIndex m + fLength m + (if fLength m = 0 then 1 else 0))"

definition matchString :: "rune list \<Rightarrow> FinderMatch \<Rightarrow> rune list" where
  "matchString t m = slice t (fIndex m) (fIndex m + fLength m)"


subsection \<open>The parameter parser pattern\<close>

text \<open>
  \<^verbatim>\<open>$\<close> without the Multiline option: the end of the text, or just before a final
  newline.
\<close>

definition endAnchor :: "rune list \<Rightarrow> nat \<Rightarrow> bool" where
  "endAnchor t p \<longleftrightarrow> p = length t \<or> (p + 1 = length t \<and> t ! p = newline)"

text \<open>
  \<^verbatim>\<open>(?<defaultsValue>.*?)\}$\<close> from \<open>p\<close>: the lazy loop takes runes other than a newline
  one at a time until \<^verbatim>\<open>\}$\<close> matches; the result is the position of that brace.
\<close>

function lazyToClose :: "rune list \<Rightarrow> nat \<Rightarrow> nat option" where
  "lazyToClose t p =
     (if length t \<le> p then None
      else if t ! p = rbrace \<and> endAnchor t (p + 1) then Some p
      else if t ! p \<noteq> newline then lazyToClose t (p + 1)
      else None)"
  by pat_completeness auto
termination
  by (relation "measure (\<lambda>(t, p). length t - p)") auto

declare lazyToClose.simps [simp del]

text \<open>\<^verbatim>\<open>paramDefaults = (?<defaultsOperation>:?[-+?])\<close>: the position after the operator.\<close>

definition isDefaultsSign :: "rune \<Rightarrow> bool" where
  "isDefaultsSign c \<longleftrightarrow> c = 45 \<or> c = 43 \<or> c = 63"

definition defaultsOperationAt :: "rune list \<Rightarrow> nat \<Rightarrow> nat option" where
  "defaultsOperationAt t p =
     (if is_char t p 58 \<and> p + 1 < length t \<and> isDefaultsSign (t ! (p + 1)) then Some (p + 2)
      else if p < length t \<and> isDefaultsSign (t ! p) then Some (p + 1)
      else None)"

text \<open>
  \<^verbatim>\<open>paramParserPattern = (?:\$\{NAME(?<expansion>(?<defaults>(OP)(?<defaultsValue>.*?)))?\}$)\<close>.
  A match keeps the texts of the groups \<^verbatim>\<open>defaults\<close>, \<^verbatim>\<open>defaultsOperation\<close> and
  \<^verbatim>\<open>defaultsValue\<close>, empty when the optional group did not take part. \<open>parserAt\<close> tries the
  pattern at one position: the optional group is greedy, so the operator and the lazy
  value are tried first, and the closing brace straight after the name only when they
  fail. The pattern has no anchor at its start: \<open>findParser\<close> tries the positions from
  left to right, as \<^verbatim>\<open>FindStringMatch\<close> does.
\<close>

record ParserMatch =
  defaults :: "rune list"
  defaultsOperation :: "rune list"
  defaultsValue :: "rune list"

definition parserAt :: "rune list \<Rightarrow> nat \<Rightarrow> ParserMatch option" where
  "parserAt t p =
     (if is_char t p dollar \<and> is_char t (p + 1) lbrace then
        (case paramName t (p + 2) of
           None \<Rightarrow> None
         | Some q \<Rightarrow>
            (case (case defaultsOperationAt t q of
                     Some r \<Rightarrow>
                       (case lazyToClose t r of
                          Some c \<Rightarrow> Some \<lparr>defaults = slice t q c,
                                          defaultsOperation = slice t q r,
                                          defaultsValue = slice t r c\<rparr>
                        | None \<Rightarrow> None)
                   | None \<Rightarrow> None) of
               Some m \<Rightarrow> Some m
             | None \<Rightarrow>
                 if is_char t q rbrace \<and> endAnchor t (q + 1)
                 then Some \<lparr>defaults = [], defaultsOperation = [], defaultsValue = []\<rparr>
                 else None))
      else None)"

function findParser :: "rune list \<Rightarrow> nat \<Rightarrow> ParserMatch option" where
  "findParser t p =
     (if length t < p then None
      else case parserAt t p of
             Some m \<Rightarrow> Some m
           | None \<Rightarrow> findParser t (p + 1))"
  by pat_completeness auto
termination
  by (relation "measure (\<lambda>(t, p). Suc (length t) - p)") auto

declare findParser.simps [simp del]

lemma lazyToClose_bounds: "lazyToClose t p = Some c \<Longrightarrow> p \<le> c \<and> c < length t"
  by (induction t p rule: lazyToClose.induct)
     (subst (asm) lazyToClose.simps, auto split: if_splits)

lemma defaultsOperationAt_bounds: "defaultsOperationAt t p = Some r \<Longrightarrow> p < r \<and> r \<le> length t"
  by (auto simp: defaultsOperationAt_def split: if_splits)

lemma parserAt_value_length:
  "parserAt t p = Some m \<Longrightarrow> length (defaultsValue m) < length t"
  by (auto simp: parserAt_def slice_def is_char_def split: if_splits option.splits
           dest!: lazyToClose_bounds)

lemma findParser_value_length:
  "findParser t p = Some m \<Longrightarrow> length (defaultsValue m) < length t"
  by (induction t p rule: findParser.induct)
     (subst (asm) findParser.simps, auto split: if_splits option.splits dest: parserAt_value_length)

lemma bracedTail_step:
  assumes "bracedTail t p d = Some e"
  shows "p < length t \<and>
     ((\<exists>q. paramName t (p + 2) = Some q \<and> bracedTail t q (d + 1) = Some e)
      \<or> bracedTail t (p + 1) d = Some e
      \<or> bracedTail t (p + 2) d = Some e
      \<or> (0 < d \<and> bracedTail t (p + 1) (d - 1) = Some e)
      \<or> (d = 0 \<and> t ! p = rbrace \<and> e = p + 1))"
  using assms
  apply (subst (asm) bracedTail.simps)
  apply (simp split: if_splits option.splits)
  done

lemma bracedTail_bounds:
  "bracedTail t p d = Some e \<Longrightarrow> p < e \<and> e \<le> length t"
proof (induction "length t - p" arbitrary: p d rule: less_induct)
  case less
  from bracedTail_step [OF less.prems] have p: "p < length t" by simp
  from bracedTail_step [OF less.prems] consider
      q where "paramName t (p + 2) = Some q" "bracedTail t q (d + 1) = Some e"
    | "bracedTail t (p + 1) d = Some e"
    | "bracedTail t (p + 2) d = Some e"
    | "bracedTail t (p + 1) (d - 1) = Some e"
    | "e = p + 1"
    by blast
  then show ?case
  proof cases
    case 1
    from paramName_bounds [OF 1(1)] p have "length t - q < length t - p" by arith
    from less.hyps [OF this 1(2)] paramName_bounds [OF 1(1)] show ?thesis by simp
  next
    case 2
    from p have "length t - (p + 1) < length t - p" by arith
    from less.hyps [OF this 2] show ?thesis by simp
  next
    case 3
    from p have "length t - (p + 2) < length t - p" by arith
    from less.hyps [OF this 3] show ?thesis by simp
  next
    case 4
    from p have "length t - (p + 1) < length t - p" by arith
    from less.hyps [OF this 4] show ?thesis by simp
  next
    case 5
    with p show ?thesis by simp
  qed
qed

lemma finderAt_bounds:
  assumes "finderAt t p = Some m"
  shows "fIndex m = p \<and> 2 \<le> fLength m \<and> p + fLength m \<le> length t"
  using assms
  by (auto simp: finderAt_def split: option.splits if_splits
           dest!: paramName_bounds bracedTail_bounds)

lemma findParam_bounds:
  "findParam t p = Some m \<Longrightarrow>
     p \<le> fIndex m \<and> 2 \<le> fLength m \<and> fIndex m + fLength m \<le> length t"
proof (induction t p rule: findParam.induct)
  case (1 t p)
  show ?case
  proof (cases "finderAt t p")
    case None
    with "1.prems" have "findParam t (p + 1) = Some m" "\<not> length t < p"
      by (subst (asm) findParam.simps, simp split: if_splits)+
    with "1.IH" None show ?thesis by fastforce
  next
    case (Some m')
    with "1.prems" have "m' = m"
      by (subst (asm) findParam.simps, simp split: if_splits)
    with Some finderAt_bounds [of t p m] show ?thesis by simp
  qed
qed

section \<open>The environment\<close>

text \<open>
  The process environment, read with \<^verbatim>\<open>os.LookupEnv\<close> and \<^verbatim>\<open>os.Getenv\<close>. Names and values
  are strings; they are given by their runes (the environment holds valid UTF-8, which
  every conversion between a string and its runes keeps as it is).
\<close>

type_synonym env = "rune list \<rightharpoonup> rune list"

definition LookupEnv :: "env \<Rightarrow> rune list \<Rightarrow> rune list \<times> bool" where
  "LookupEnv env key = (case env key of None \<Rightarrow> ([], False) | Some v \<Rightarrow> (v, True))"

definition Getenv :: "env \<Rightarrow> rune list \<Rightarrow> rune list" where
  "Getenv env key = fst (LookupEnv env key)"

section \<open>Resolving a reference\<close>

text \<open>
  \<open>handleDefaults\<close> returns the value of the variable, whether it stands for the
  reference (\<^verbatim>\<open>resolved\<close>) and whether the reference fails (\<^verbatim>\<open>failing\<close>). The source slices
  the operator with \<^verbatim>\<open>operation[0:1]\<close>, which panics on an empty operator; the callers pass
  a match whose group \<^verbatim>\<open>defaults\<close> is not empty, and then the operator is not empty.
\<close>

definition handleDefaults ::
  "env \<Rightarrow> ParserMatch \<Rightarrow> rune list \<Rightarrow> error + (rune list \<times> bool \<times> bool)" where
  "handleDefaults env match param =
     (let operation = defaultsOperation match;
          (val, isSet) = LookupEnv env param
      in if operation = [] then Inl (runes ''runtime error: slice bounds out of range [:1] with length 0'')
         else
           let emptyEqualsUnset = (take 1 operation = [58]) in
           if last operation = 45 then
             (if (val = [] \<and> emptyEqualsUnset) \<or> \<not> isSet then Inr (val, False, False)
              else Inr (val, True, False))
           else if last operation = 43 then
             (if val \<noteq> [] \<or> (isSet \<and> \<not> emptyEqualsUnset) then Inr (val, False, False)
              else Inr (val, True, False))
           else if last operation = 63 then
             (if (val = [] \<and> emptyEqualsUnset) \<or> \<not> isSet then Inr (val, False, True)
              else Inr (val, True, False))
           else Inr (val, True, False))"

lemma nextParam_bounds:
  "nextParam t m = Some m' \<Longrightarrow> fIndex m < fIndex m' \<and> fIndex m' + fLength m' \<le> length t \<and> 2 \<le> fLength m'"
  unfolding nextParam_def
  by (drule findParam_bounds) (simp split: if_splits)

lemma length_matchString: "length (matchString t m) \<le> length t"
  by (simp add: matchString_def slice_def)

text \<open>
  \<open>parseParam\<close> resolves the first reference of its argument and puts the value in its
  place; \<^verbatim>\<open>panic(value)\<close> is the result \<open>Inl value\<close>. \<open>parseEmbeddedParams\<close> is
  \<^verbatim>\<open>ReplaceFunc\<close> with the finder pattern and \<^verbatim>\<open>embeddedParser\<close>: \<open>replaceEmbedded\<close> is its loop
  over the matches, which copies the text between two matches and replaces each match
  by \<open>parseParam\<close> of its text. The three functions call one another, on shorter and
  shorter texts.
\<close>

function parseParam :: "env \<Rightarrow> rune list \<Rightarrow> error + rune list"
  and parseEmbeddedParams :: "env \<Rightarrow> rune list \<Rightarrow> error + rune list"
  and replaceEmbedded ::
    "env \<Rightarrow> rune list \<Rightarrow> FinderMatch option \<Rightarrow> nat \<Rightarrow> rune list \<Rightarrow> error + rune list"
where
  "parseParam env param =
     (case findParam param 0 of
        None \<Rightarrow> Inr param
      | Some finderMatch \<Rightarrow>
         (case (if bare finderMatch \<noteq> [] then Inr (Getenv env (bare finderMatch))
                else if braced finderMatch \<noteq> [] then
                  (case findParser (matchString param finderMatch) 0 of
                     None \<Rightarrow> Inr (Getenv env (braced finderMatch))
                   | Some parserMatch \<Rightarrow>
                       if defaults parserMatch \<noteq> [] then
                         (case handleDefaults env parserMatch (braced finderMatch) of
                            Inl e \<Rightarrow> Inl e
                          | Inr (val, resolved, failing) \<Rightarrow>
                             (case (if \<not> resolved
                                    then parseEmbeddedParams env (defaultsValue parserMatch)
                                    else Inr val) of
                                Inl e \<Rightarrow> Inl e
                              | Inr val' \<Rightarrow> if failing then Inl val' else Inr val'))
                       else Inr (Getenv env (braced finderMatch)))
                else Inr param) of
            Inl e \<Rightarrow> Inl e
          | Inr val \<Rightarrow>
              Inr (take (fIndex finderMatch) param @ val @
                   drop (fIndex finderMatch + fLength finderMatch) param)))"
| "parseEmbeddedParams env val = replaceEmbedded env val (findParam val 0) 0 []"
| "replaceEmbedded env val None lastIndex acc = Inr (acc @ drop lastIndex val)"
| "replaceEmbedded env val (Some m) lastIndex acc =
     (case parseParam env (matchString val m) of
        Inl e \<Rightarrow> Inl e
      | Inr r \<Rightarrow>
          replaceEmbedded env val (nextParam val m) (fIndex m + fLength m)
            (acc @ slice val lastIndex (fIndex m) @ r))"
  by pat_completeness auto

termination
proof (relation "inv_image (less_than <*lex*> less_than)
     (\<lambda>x. case x of
        Inl (env, param) \<Rightarrow> (length param, 0)
      | Inr (Inl (env, val)) \<Rightarrow> (length val, length val + 4)
      | Inr (Inr (env, val, mo, l, acc)) \<Rightarrow>
          (length val, case mo of None \<Rightarrow> 1 | Some m \<Rightarrow> 2 + (length val - fIndex m)))",
    goal_cases)
  case 1
  show ?case by (intro wf_inv_image wf_lex_prod wf_less_than)
next
  case (2 env param finderMatch parserMatch)
  then show ?case
    using findParser_value_length [of "matchString param finderMatch" 0 parserMatch]
      length_matchString [of param finderMatch]
    by simp
next
  case (3 env val)
  show ?case by (clarsimp split: option.split, arith)
next
  case (4 env val m lastIndex acc)
  show ?case using length_matchString [of val m] by (simp add: le_less)
next
  case (5 env val m lastIndex acc r)
  show ?case
  proof (cases "nextParam val m")
    case None
    then show ?thesis by simp
  next
    case (Some m')
    with nextParam_bounds [OF Some] show ?thesis by (simp, arith)
  qed
qed

declare parseParam.simps [simp del] parseEmbeddedParams.simps [simp del]


section \<open>References and their values\<close>

record Param =
  ParamId :: "rune list"
  ParamPosition :: "nat \<times> nat"

type_synonym AssocArray = "rune list \<rightharpoonup> rune list"

text \<open>
  \<^verbatim>\<open>type Parser func(string) string\<close>. A Go function value may carry state (the test
  suite passes a method of a counter) and may panic, so a parser takes and returns a
  state \<open>'s\<close> next to its result.
\<close>

type_synonym 's Parser = "rune list \<Rightarrow> 's \<Rightarrow> (error + rune list) \<times> 's"

fun mapParamValuesLoop ::
  "Param list \<Rightarrow> 's Parser \<Rightarrow> AssocArray \<Rightarrow> 's \<Rightarrow> (error + AssocArray) \<times> 's" where
  "mapParamValuesLoop [] parser values s = (Inr values, s)"
| "mapParamValuesLoop (param # params) parser values s =
     (case values (ParamId param) of
        Some v \<Rightarrow> mapParamValuesLoop params parser values s
      | None \<Rightarrow>
         (case parser (ParamId param) s of
            (Inl e, s') \<Rightarrow> (Inl e, s')
          | (Inr v, s') \<Rightarrow> mapParamValuesLoop params parser (values(ParamId param \<mapsto> v)) s'))"

definition mapParamValues ::
  "Param list \<Rightarrow> 's Parser \<Rightarrow> 's \<Rightarrow> (error + AssocArray) \<times> 's" where
  "mapParamValues params parser s = mapParamValuesLoop params parser Map.empty s"

definition mapperHandler :: "env \<Rightarrow> Param list \<Rightarrow> error + AssocArray" where
  "mapperHandler env params =
     fst (mapParamValues params (\<lambda>param s. (parseParam env param, s)) ())"

text \<open>
  For C3: a parser that computes \<open>f\<close> and records each call in its state, and the list
  of the distinct elements of a list in the order of their first occurrence.
\<close>

definition recording :: "(rune list \<Rightarrow> rune list) \<Rightarrow> (rune list list) Parser" where
  "recording f = (\<lambda>param calls. (Inr (f param), calls @ [param]))"

fun firstOccurrences :: "'a list \<Rightarrow> 'a list" where
  "firstOccurrences [] = []"
| "firstOccurrences (x # xs) = x # firstOccurrences (filter (\<lambda>y. y \<noteq> x) xs)"

lemma set_firstOccurrences: "set (firstOccurrences xs) = set xs"
  by (induction xs rule: firstOccurrences.induct) auto

lemma distinct_firstOccurrences: "distinct (firstOccurrences xs)"
  by (induction xs rule: firstOccurrences.induct) (auto simp: set_firstOccurrences)

lemma recording_apply: "recording f param calls = (Inr (f param), calls @ [param])"
  by (simp add: recording_def)

lemma mapParamValuesLoop_recording:
  "mapParamValuesLoop params (recording f) vals calls =
     (Inr (\<lambda>k. if k \<in> ParamId ` set params \<and> vals k = None then Some (f k) else vals k),
      calls @ firstOccurrences (filter (\<lambda>k. vals k = None) (map ParamId params)))"
proof (induction params arbitrary: vals calls)
  case Nil
  show ?case by simp
next
  case (Cons param params)
  show ?case
  proof (cases "vals (ParamId param)")
    case (Some v)
    then show ?thesis by (auto simp: Cons.IH intro!: ext)
  next
    case None
    let ?x = "ParamId param"
    have f: "filter (\<lambda>k. (vals(?x \<mapsto> f ?x)) k = None) (map ParamId params)
           = filter (\<lambda>y. y \<noteq> ?x) (filter (\<lambda>k. vals k = None) (map ParamId params))"
      by (induction params) auto
    have "mapParamValuesLoop (param # params) (recording f) vals calls
        = mapParamValuesLoop params (recording f) (vals(?x \<mapsto> f ?x)) (calls @ [?x])"
      using None by (simp add: recording_apply)
    also have "\<dots> = (Inr (\<lambda>k. if k \<in> ParamId ` set params \<and> (vals(?x \<mapsto> f ?x)) k = None
                                then Some (f k) else (vals(?x \<mapsto> f ?x)) k),
                    (calls @ [?x]) @ firstOccurrences
                       (filter (\<lambda>k. (vals(?x \<mapsto> f ?x)) k = None) (map ParamId params)))"
      by (rule Cons.IH)
    also have "\<dots> = (Inr (\<lambda>k. if k \<in> ParamId ` set (param # params) \<and> vals k = None
                                then Some (f k) else vals k),
                    calls @ firstOccurrences
                       (filter (\<lambda>k. vals k = None) (map ParamId (param # params))))"
      unfolding f using None by (auto intro!: ext)
    finally show ?thesis .
  qed
qed

text \<open>\<^verbatim>\<open>TestRepeatingMapParamValues\<close>: five references, two distinct texts, two calls.\<close>

lemma TestRepeatingMapParamValues:
  "mapParamValues
     [\<lparr>ParamId = runes ''$FOO'', ParamPosition = (0, 0)\<rparr>,
      \<lparr>ParamId = runes ''$FOO'', ParamPosition = (0, 0)\<rparr>,
      \<lparr>ParamId = runes ''$BAR'', ParamPosition = (0, 0)\<rparr>,
      \<lparr>ParamId = runes ''$FOO'', ParamPosition = (0, 0)\<rparr>,
      \<lparr>ParamId = runes ''$FOO'', ParamPosition = (0, 0)\<rparr>]
     (\<lambda>param counter. (Inr (runes ''foo''), counter + 1)) (0::nat)
   = (Inr [runes ''$FOO'' \<mapsto> runes ''foo'', runes ''$BAR'' \<mapsto> runes ''foo''], 2)"
  by (simp add: mapParamValues_def runes_def)

section \<open>Valid slices and the finder\<close>

definition InRange :: "nat \<Rightarrow> nat \<times> nat \<Rightarrow> bool" where
  "InRange i r \<longleftrightarrow> i \<ge> fst r \<and> i < snd r"

text \<open>
  \<^verbatim>\<open>getValidSlices\<close> appends the position of every segment that is not single-quoted, or
  extends the last slice when the segment starts where that slice ends. (In the source
  the appended slice shares its array with the segment, so extending it also changes
  that earlier segment of the argument; the result does not depend on it.)
\<close>

fun getValidSlicesLoop :: "Segment list \<Rightarrow> (nat \<times> nat) list \<Rightarrow> (nat \<times> nat) list" where
  "getValidSlicesLoop [] valid = valid"
| "getValidSlicesLoop (segment # segments) valid =
     getValidSlicesLoop segments
       (if SegmentType segment \<noteq> singleQuoted then
          (if valid \<noteq> [] \<and> snd (last valid) = fst (Position segment)
           then butlast valid @ [(fst (last valid), snd (Position segment))]
           else valid @ [Position segment])
        else valid)"

definition getValidSlices :: "Segment list \<Rightarrow> (nat \<times> nat) list" where
  "getValidSlices segments = getValidSlicesLoop segments []"

text \<open>\<^verbatim>\<open>MatchesToIndices\<close> with the finder pattern: all matches, left to right.\<close>

function matchesLoop :: "rune list \<Rightarrow> FinderMatch option \<Rightarrow> (nat \<times> nat) list \<Rightarrow> (nat \<times> nat) list" where
  "matchesLoop payload None slices = slices"
| "matchesLoop payload (Some m) slices =
     matchesLoop payload (nextParam payload m) (slices @ [(fIndex m, fIndex m + fLength m)])"
  by pat_completeness auto
termination
proof (relation "measure (\<lambda>(t, mo, s). case mo of None \<Rightarrow> 0 | Some m \<Rightarrow> Suc (Suc (length t) - fIndex m))",
    goal_cases)
  case 1
  show ?case by simp
next
  case (2 payload m slices)
  show ?case
  proof (cases "nextParam payload m")
    case None
    then show ?thesis by simp
  next
    case (Some m')
    with nextParam_bounds [OF Some] show ?thesis by (simp, arith)
  qed
qed

definition MatchesToIndices :: "rune list \<Rightarrow> (nat \<times> nat) list" where
  "MatchesToIndices payload = matchesLoop payload (findParam payload 0) []"

definition findParams :: "rune list \<Rightarrow> (nat \<times> nat) list \<Rightarrow> Param list" where
  "findParams payload validSlices =
     map (\<lambda>param. \<lparr>ParamId = slice payload (fst param) (snd param), ParamPosition = param\<rparr>)
       (filter (\<lambda>param. list_ex (\<lambda>validSlice. InRange (fst param) validSlice) validSlices)
          (MatchesToIndices payload))"


lemma getValidSlicesLoop_covered:
  assumes "\<forall>v\<in>set valid. InRange i v \<longrightarrow> P"
    and "\<forall>s\<in>set segs. SegmentType s \<noteq> singleQuoted \<longrightarrow> InRange i (Position s) \<longrightarrow> P"
    and "v \<in> set (getValidSlicesLoop segs valid)" "InRange i v"
  shows P
  using assms
proof (induction segs arbitrary: valid)
  case Nil
  then show ?case by auto
next
  case (Cons s segs)
  let ?valid' = "(if SegmentType s \<noteq> singleQuoted then
          (if valid \<noteq> [] \<and> snd (last valid) = fst (Position s)
           then butlast valid @ [(fst (last valid), snd (Position s))]
           else valid @ [Position s])
        else valid)"
  have "\<forall>v\<in>set ?valid'. InRange i v \<longrightarrow> P"
  proof (intro ballI impI)
    fix v assume v: "v \<in> set ?valid'" "InRange i v"
    show P
    proof (cases "SegmentType s \<noteq> singleQuoted \<and> valid \<noteq> [] \<and> snd (last valid) = fst (Position s)")
      case True
      with v have "v \<in> set (butlast valid) \<or> v = (fst (last valid), snd (Position s))" by auto
      then show ?thesis
      proof
        assume "v \<in> set (butlast valid)"
        then have "v \<in> set valid" by (rule in_set_butlastD)
        with Cons.prems(1) v(2) show P by blast
      next
        assume e: "v = (fst (last valid), snd (Position s))"
        from True have l: "last valid \<in> set valid" by simp
        from e v(2) True have "InRange i (last valid) \<or> InRange i (Position s)"
          by (auto simp: InRange_def)
        with l Cons.prems(1,2) True show P by auto
      qed
    next
      case False
      with v have "v \<in> set valid \<or> (SegmentType s \<noteq> singleQuoted \<and> v = Position s)"
        by (auto split: if_splits)
      with Cons.prems(1,2) v(2) show ?thesis by auto
    qed
  qed
  moreover have "\<forall>s\<in>set segs. SegmentType s \<noteq> singleQuoted \<longrightarrow> InRange i (Position s) \<longrightarrow> P"
    using Cons.prems(2) by simp
  moreover have "v \<in> set (getValidSlicesLoop segs ?valid')"
    using Cons.prems(3) by simp
  ultimately show ?case using Cons.IH Cons.prems(4) by blast
qed

lemma chain_le: "chain a segs b \<Longrightarrow> a \<le> b"
proof (induction segs arbitrary: a)
  case Nil
  then show ?case by simp
next
  case (Cons x xs)
  from Cons.prems have "chain (snd (Position x)) xs b" "a < snd (Position x)" by simp_all
  with Cons.IH [of "snd (Position x)"] show ?case by simp
qed

lemma chain_within:
  "chain a segs b \<Longrightarrow> s \<in> set segs \<Longrightarrow>
     a \<le> fst (Position s) \<and> fst (Position s) < snd (Position s) \<and> snd (Position s) \<le> b"
proof (induction segs arbitrary: a)
  case Nil
  then show ?case by simp
next
  case (Cons x xs)
  from Cons.prems(1) have c: "chain (snd (Position x)) xs b" and f: "fst (Position x) = a"
    "a < snd (Position x)" by simp_all
  show ?case
  proof (cases "s = x")
    case True
    with chain_le [OF c] f show ?thesis by simp
  next
    case False
    with Cons.prems have s: "s \<in> set xs" by simp
    from Cons.IH [OF c s] f show ?thesis by simp
  qed
qed

lemma chain_disjoint:
  assumes "chain a segs b" "s \<in> set segs" "s' \<in> set segs"
    "InRange i (Position s)" "InRange i (Position s')"
  shows "s = s'"
  using assms
proof (induction segs arbitrary: a)
  case Nil
  then show ?case by simp
next
  case (Cons x xs)
  from Cons.prems(1) have c: "chain (snd (Position x)) xs b" by simp
  show ?case
  proof (cases "s = x")
    case sx: True
    show ?thesis
    proof (cases "s' = x")
      case True
      with sx show ?thesis by simp
    next
      case False
      with Cons.prems(3) have "s' \<in> set xs" by simp
      from chain_within [OF c this] Cons.prems(4,5) sx show ?thesis
        by (simp add: InRange_def)
    qed
  next
    case sx: False
    with Cons.prems(2) have s: "s \<in> set xs" by simp
    show ?thesis
    proof (cases "s' = x")
      case True
      from chain_within [OF c s] Cons.prems(4,5) True show ?thesis
        by (simp add: InRange_def)
    next
      case False
      with Cons.prems(3) have "s' \<in> set xs" by simp
      from Cons.IH [OF c s this Cons.prems(4,5)] show ?thesis .
    qed
  qed
qed

lemma findParams_start_valid:
  assumes "p \<in> set (findParams payload validSlices)"
  shows "\<exists>v\<in>set validSlices. InRange (fst (ParamPosition p)) v"
  using assms by (auto simp: findParams_def list_ex_iff)


section \<open>Quotes and escape sequences\<close>

definition segmentText :: "rune list \<Rightarrow> Segment \<Rightarrow> rune list" where
  "segmentText payload segment = slice payload (fst (Position segment)) (snd (Position segment))"

definition wrapParent :: "rune list \<Rightarrow> SegmentType \<Rightarrow> rune list" where
  "wrapParent param parent =
     (case parent of
        singleQuoted \<Rightarrow> [squote] @ param @ [squote]
      | doubleQuoted \<Rightarrow> [dquote] @ param @ [dquote]
      | unQuoted \<Rightarrow> param)"

text \<open>\<^verbatim>\<open>unescapedDollarRegex.Replace(s, `\$`, -1, -1)\<close>: a backslash before every unescaped dollar.\<close>

function escapeDollars :: "rune list \<Rightarrow> nat \<Rightarrow> rune list" where
  "escapeDollars s p =
     (if length s \<le> p then []
      else if s ! p = dollar \<and> unescapedToken s p then backslash # dollar # escapeDollars s (p + 1)
      else s ! p # escapeDollars s (p + 1))"
  by pat_completeness auto
termination
  by (relation "measure (\<lambda>(s, p). length s - p)") auto

declare escapeDollars.simps [simp del]

definition escapeLiteralDollars :: "rune list \<Rightarrow> SegmentType \<Rightarrow> error + rune list" where
  "escapeLiteralDollars param parent =
     (let payload = wrapParent param parent in
      case tokenizeByQuotes payload of
        Inl e \<Rightarrow> Inl e
      | Inr segments \<Rightarrow>
          let results =
                map (\<lambda>segment.
                       if SegmentType segment = singleQuoted
                       then escapeDollars (segmentText payload segment) 0
                       else segmentText payload segment) segments;
              joined = concat results
          in Inr (if parent \<noteq> unQuoted then slice joined 1 (length joined - 1) else joined))"

text \<open>\<^verbatim>\<open>resolveAllQuotesRegex = U'|U"\<close>: the first match, and the removal of all matches.\<close>

function findUnescapedQuote :: "rune list \<Rightarrow> nat \<Rightarrow> rune option" where
  "findUnescapedQuote s p =
     (if length s \<le> p then None
      else if (s ! p = squote \<or> s ! p = dquote) \<and> unescapedToken s p then Some (s ! p)
      else findUnescapedQuote s (p + 1))"
  by pat_completeness auto
termination
  by (relation "measure (\<lambda>(s, p). length s - p)") auto

declare findUnescapedQuote.simps [simp del]

function removeUnescapedQuotes :: "rune list \<Rightarrow> nat \<Rightarrow> rune list" where
  "removeUnescapedQuotes s p =
     (if length s \<le> p then []
      else if (s ! p = squote \<or> s ! p = dquote) \<and> unescapedToken s p
      then removeUnescapedQuotes s (p + 1)
      else s ! p # removeUnescapedQuotes s (p + 1))"
  by pat_completeness auto
termination
  by (relation "measure (\<lambda>(s, p). length s - p)") auto

declare removeUnescapedQuotes.simps [simp del]

text \<open>\<^verbatim>\<open>resolveDoubleQuotesRegex = U"\<close>, replaced by the empty string.\<close>

function removeUnescapedDoubleQuotes :: "rune list \<Rightarrow> nat \<Rightarrow> rune list" where
  "removeUnescapedDoubleQuotes s p =
     (if length s \<le> p then []
      else if s ! p = dquote \<and> unescapedToken s p
      then removeUnescapedDoubleQuotes s (p + 1)
      else s ! p # removeUnescapedDoubleQuotes s (p + 1))"
  by pat_completeness auto
termination
  by (relation "measure (\<lambda>(s, p). length s - p)") auto

declare removeUnescapedDoubleQuotes.simps [simp del]

text \<open>
  \<^verbatim>\<open>`\\.`\<close> with \<^verbatim>\<open>unescaper\<close>: a backslash and the rune after it (any but a newline) become
  that rune; matches do not overlap.
\<close>

function unescapeAny :: "rune list \<Rightarrow> nat \<Rightarrow> rune list" where
  "unescapeAny s p =
     (if length s \<le> p then []
      else if s ! p = backslash \<and> p + 1 < length s \<and> s ! (p + 1) \<noteq> newline
      then s ! (p + 1) # unescapeAny s (p + 2)
      else s ! p # unescapeAny s (p + 1))"
  by pat_completeness auto
termination
  by (relation "measure (\<lambda>(s, p). length s - p)") auto

declare unescapeAny.simps [simp del]

text \<open>\<^verbatim>\<open>unescapeAllQuotesRegex = U\\'|U\\"\<close> with \<^verbatim>\<open>unescaper\<close>.\<close>

function unescapeQuotes :: "rune list \<Rightarrow> nat \<Rightarrow> rune list" where
  "unescapeQuotes s p =
     (if length s \<le> p then []
      else if s ! p = backslash \<and> unescapedToken s p \<and> p + 1 < length s \<and>
              (s ! (p + 1) = squote \<or> s ! (p + 1) = dquote)
      then s ! (p + 1) # unescapeQuotes s (p + 2)
      else s ! p # unescapeQuotes s (p + 1))"
  by pat_completeness auto
termination
  by (relation "measure (\<lambda>(s, p). length s - p)") auto

declare unescapeQuotes.simps [simp del]

subsection \<open>The escape sequence pattern and \<^verbatim>\<open>strconv.UnquoteChar\<close>\<close>

definition isOctal :: "rune \<Rightarrow> bool" where
  "isOctal c \<longleftrightarrow> 48 \<le> c \<and> c \<le> 55"

definition isHex :: "rune \<Rightarrow> bool" where
  "isHex c \<longleftrightarrow> (48 \<le> c \<and> c \<le> 57) \<or> (97 \<le> c \<and> c \<le> 102) \<or> (65 \<le> c \<and> c \<le> 70)"

definition allAt :: "(rune \<Rightarrow> bool) \<Rightarrow> rune list \<Rightarrow> nat \<Rightarrow> nat \<Rightarrow> bool" where
  "allAt P s p n \<longleftrightarrow> p + n \<le> length s \<and> list_all P (slice s p (p + n))"

text \<open>
  \<^verbatim>\<open>U(?:\\\$|(?<quotable>\\(?:[\\abfnrtv]|[0-7]{3}|x[0-9a-fA-F]{2}|u[0-9a-fA-F]{4}|U[0-9a-fA-F]{8})))\<close>
  at position \<open>p\<close>: the length of the match and whether the group \<^verbatim>\<open>quotable\<close> took part.
\<close>

definition escapeMatchAt :: "rune list \<Rightarrow> nat \<Rightarrow> (nat \<times> bool) option" where
  "escapeMatchAt s p =
     (if is_char s p backslash \<and> unescapedToken s p \<and> p + 1 < length s then
        (let c = s ! (p + 1) in
         if c = dollar then Some (2, False)
         else if c \<in> {92, 97, 98, 102, 110, 114, 116, 118} then Some (2, True)
         else if allAt isOctal s (p + 1) 3 then Some (4, True)
         else if c = 120 \<and> allAt isHex s (p + 2) 2 then Some (4, True)
         else if c = 117 \<and> allAt isHex s (p + 2) 4 then Some (6, True)
         else if c = 85 \<and> allAt isHex s (p + 2) 8 then Some (10, True)
         else None)
      else None)"

function findEscape :: "rune list \<Rightarrow> nat \<Rightarrow> (nat \<times> nat \<times> bool) option" where
  "findEscape s p =
     (if length s < p then None
      else case escapeMatchAt s p of
             Some (n, q) \<Rightarrow> Some (p, n, q)
           | None \<Rightarrow> findEscape s (p + 1))"
  by pat_completeness auto
termination
  by (relation "measure (\<lambda>(s, p). Suc (length s) - p)") auto

declare findEscape.simps [simp del]

definition hexDigit :: "rune \<Rightarrow> nat" where
  "hexDigit c = (if 48 \<le> c \<and> c \<le> 57 then c - 48
                 else if 97 \<le> c \<and> c \<le> 102 then c - 97 + 10
                 else c - 65 + 10)"

definition hexValue :: "rune list \<Rightarrow> nat" where
  "hexValue ds = foldl (\<lambda>v d. v * 16 + hexDigit d) 0 ds"

definition octalValue :: "rune list \<Rightarrow> nat" where
  "octalValue ds = foldl (\<lambda>v d. v * 8 + (d - 48)) 0 ds"

definition ValidRune :: "nat \<Rightarrow> bool" where
  "ValidRune r \<longleftrightarrow> r < 55296 \<or> (57343 < r \<and> r \<le> 1114111)"

text \<open>
  \<^verbatim>\<open>strconv.UnquoteChar(matchStr, 0)\<close> on a match of the group \<^verbatim>\<open>quotable\<close>; its error is
  dropped by the caller, which then uses the zero rune. The 32-bit accumulator of
  \<^verbatim>\<open>\U\<close> is negative from \<open>2^31\<close> on, which is not a valid rune either.
\<close>

definition UnquoteChar :: "rune list \<Rightarrow> rune" where
  "UnquoteChar s =
     (let c = s ! 1 in
      if c = 97 then 7 else if c = 98 then 8 else if c = 102 then 12
      else if c = 110 then 10 else if c = 114 then 13 else if c = 116 then 9
      else if c = 118 then 11 else if c = 92 then 92
      else if c = 120 then hexValue (drop 2 s)
      else if c = 117 \<or> c = 85 then
        (if ValidRune (hexValue (drop 2 s)) then hexValue (drop 2 s) else 0)
      else if isOctal c then
        (if octalValue (drop 1 s) > 255 then 0 else octalValue (drop 1 s))
      else 0)"

lemma escapeMatchAt_bounds: "escapeMatchAt s p = Some (n, q) \<Longrightarrow> 2 \<le> n \<and> p + n \<le> length s"
  by (auto simp: escapeMatchAt_def allAt_def Let_def split: if_splits)

lemma findEscape_bounds:
  "findEscape s p = Some (i, n, q) \<Longrightarrow> p \<le> i \<and> 2 \<le> n \<and> i + n \<le> length s"
proof (induction s p rule: findEscape.induct)
  case (1 s p)
  show ?case
  proof (cases "escapeMatchAt s p")
    case None
    with "1.prems" have "findEscape s (p + 1) = Some (i, n, q)" "\<not> length s < p"
      by (subst (asm) findEscape.simps, simp split: if_splits)+
    with "1.IH" None show ?thesis by fastforce
  next
    case (Some m)
    with "1.prems" have "m = (n, q)" "i = p"
      by (subst (asm) findEscape.simps, auto split: if_splits)+
    with Some escapeMatchAt_bounds [of s p n q] show ?thesis by simp
  qed
qed

function escapeLoop ::
  "rune list \<Rightarrow> (nat \<times> nat \<times> bool) option \<Rightarrow> nat \<Rightarrow> rune list \<Rightarrow> rune list" where
  "escapeLoop s None lastIndex result = result @ drop lastIndex s"
| "escapeLoop s (Some (i, n, q)) lastIndex result =
     (let matchStr = slice s i (i + n);
          replacement = (if matchStr = [backslash, dollar] then [dollar]
                         else if q then [UnquoteChar matchStr]
                         else matchStr)
      in escapeLoop s (findEscape s (i + n + (if n = 0 then 1 else 0))) (i + n)
           (result @ slice s lastIndex i @ replacement))"
  by pat_completeness auto
termination
proof (relation "measure (\<lambda>(s, mo, l, r). case mo of None \<Rightarrow> 0 | Some (i, n, q) \<Rightarrow> Suc (Suc (length s) - i))",
    goal_cases)
  case 1
  show ?case by simp
next
  case (2 s i n q lastIndex result x xa)
  show ?case
  proof (cases "findEscape s (i + n + (if n = 0 then 1 else 0))")
    case None
    then show ?thesis by simp
  next
    case (Some m)
    obtain i' n' q' where m: "m = (i', n', q')" by (cases m)
    from findEscape_bounds [OF Some [unfolded m]] Some m show ?thesis
      by (auto split: if_splits)
  qed
qed

definition escapeHandler :: "rune list \<Rightarrow> rune list" where
  "escapeHandler param = escapeLoop param (findEscape param 0) 0 []"

text \<open>
  The loop of \<^verbatim>\<open>quoteHandler\<close> over the segments of the wrapped parameter \<open>param\<close>; the
  first unquoted segment with an unescaped quote panics.
\<close>

fun quoteSegments ::
  "rune list \<Rightarrow> SegmentType \<Rightarrow> Segment list \<Rightarrow> error + rune list list" where
  "quoteSegments param parent [] = Inr []"
| "quoteSegments param parent (segment # segments) =
     (let runner = segmentText param segment in
      if SegmentType segment = unQuoted then
        (case findUnescapedQuote runner 0 of
           Some m \<Rightarrow> Inl (runes ''unmatched quote '' @ [m] @ runes '' in: '' @ param)
         | None \<Rightarrow>
            (case quoteSegments param parent segments of
               Inl e \<Rightarrow> Inl e
             | Inr results \<Rightarrow>
                 Inr (unescapeAny (removeUnescapedQuotes runner 0) 0 # results)))
      else
        (let stripped = (if parent = SegmentType segment \<or> parent = unQuoted
                         then slice runner 1 (length runner - 1) else runner);
             resolved = (if SegmentType segment = doubleQuoted
                         then unescapeQuotes (removeUnescapedDoubleQuotes stripped 0) 0
                         else stripped)
         in case quoteSegments param parent segments of
              Inl e \<Rightarrow> Inl e
            | Inr results \<Rightarrow> Inr (resolved # results)))"

definition quoteHandler :: "rune list \<Rightarrow> SegmentType \<Rightarrow> error + rune list" where
  "quoteHandler param parent =
     (let payload = wrapParent param parent in
      case tokenizeByQuotes payload of
        Inl e \<Rightarrow> Inl e
      | Inr segments \<Rightarrow>
         (case quoteSegments payload parent segments of
            Inl e \<Rightarrow> Inl e
          | Inr results \<Rightarrow> Inr (escapeHandler (concat results))))"

definition parserHandler :: "env \<Rightarrow> rune list \<Rightarrow> SegmentType \<Rightarrow> error + rune list" where
  "parserHandler env param parent =
     (case escapeLiteralDollars param parent of
        Inl e \<Rightarrow> Inl e
      | Inr param1 \<Rightarrow>
         (case parseParam env param1 of
            Inl e \<Rightarrow> Inl e
          | Inr param2 \<Rightarrow> quoteHandler param2 parent))"

section \<open>Assignments\<close>

text \<open>
  \<^verbatim>\<open>envVarPattern = (?<name>NAME)=(?<value>.*)\<close>, searched with the option Multiline:
  \<^verbatim>\<open>^\<close> matches at the start of the text and after every newline, and \<^verbatim>\<open>.*\<close> runs to the end
  of the line. \<^verbatim>\<open>\s\<close> is a rune with \<^verbatim>\<open>unicode.IsSpace\<close>.
\<close>

definition lineStart :: "rune list \<Rightarrow> nat \<Rightarrow> bool" where
  "lineStart t p \<longleftrightarrow> p = 0 \<or> t ! (p - 1) = newline"

function restOfLine :: "rune list \<Rightarrow> nat \<Rightarrow> nat" where
  "restOfLine t p = (if p < length t \<and> t ! p \<noteq> newline then restOfLine t (p + 1) else p)"
  by pat_completeness auto
termination
  by (relation "measure (\<lambda>(t, p). length t - p)") auto

declare restOfLine.simps [simp del]

definition isSpace :: "rune \<Rightarrow> bool" where
  "isSpace c \<longleftrightarrow> (9 \<le> c \<and> c \<le> 13) \<or> c = 32 \<or> c = 133 \<or> c = 160 \<or> c = 5760 \<or>
     (8192 \<le> c \<and> c \<le> 8202) \<or> c = 8232 \<or> c = 8233 \<or> c = 8239 \<or> c = 8287 \<or> c = 12288"

function spaceRest :: "rune list \<Rightarrow> nat \<Rightarrow> nat" where
  "spaceRest t p = (if p < length t \<and> isSpace (t ! p) then spaceRest t (p + 1) else p)"
  by pat_completeness auto
termination
  by (relation "measure (\<lambda>(t, p). length t - p)") auto

declare spaceRest.simps [simp del]

record EnvMatch =
  eIndex :: nat
  eLength :: nat
  eName :: "rune list"
  eValue :: "rune list"

text \<open>The pattern from the name on, for a match that started at \<open>i\<close>.\<close>

definition envVarAt :: "rune list \<Rightarrow> nat \<Rightarrow> nat \<Rightarrow> EnvMatch option" where
  "envVarAt t i p =
     (case paramName t p of
        None \<Rightarrow> None
      | Some q \<Rightarrow>
          if is_char t q 61
          then Some \<lparr>eIndex = i, eLength = restOfLine t (q + 1) - i, eName = slice t p q,
                     eValue = slice t (q + 1) (restOfLine t (q + 1))\<rparr>
          else None)"

text \<open>
  \<^verbatim>\<open>envParserPattern = ^NAME=...\<close> and, for files,
  \<^verbatim>\<open>envFileParserPattern = ^(?:export\s+)?NAME=...\<close>: the optional prefix is tried first.
\<close>

definition envMatchAt :: "bool \<Rightarrow> rune list \<Rightarrow> nat \<Rightarrow> EnvMatch option" where
  "envMatchAt isFile t p =
     (if lineStart t p then
        (case (if isFile \<and> slice t p (p + 6) = runes ''export'' \<and> p + 6 < length t \<and>
                  isSpace (t ! (p + 6))
               then envVarAt t p (spaceRest t (p + 6)) else None) of
           Some m \<Rightarrow> Some m
         | None \<Rightarrow> envVarAt t p p)
      else None)"

function findEnv :: "bool \<Rightarrow> rune list \<Rightarrow> nat \<Rightarrow> EnvMatch option" where
  "findEnv isFile t p =
     (if length t < p then None
      else case envMatchAt isFile t p of
             Some m \<Rightarrow> Some m
           | None \<Rightarrow> findEnv isFile t (p + 1))"
  by pat_completeness auto
termination
  by (relation "measure (\<lambda>(f, t, p). Suc (length t) - p)") auto

declare findEnv.simps [simp del]

definition nextEnv :: "bool \<Rightarrow> rune list \<Rightarrow> EnvMatch \<Rightarrow> EnvMatch option" where
  "nextEnv isFile t m =
     findEnv isFile t (eIndex m + eLength m + (if eLength m = 0 then 1 else 0))"

text \<open>
  \<^verbatim>\<open>os.Setenv\<close>, whose error the source drops: on Linux a value with a NUL byte is refused
  and the environment stays as it was. (The names come from \<^verbatim>\<open>NAME\<close> and are never refused.)
\<close>

definition Setenv :: "env \<Rightarrow> rune list \<Rightarrow> rune list \<Rightarrow> env" where
  "Setenv env key val = (if 0 \<in> set val then env else env(key \<mapsto> val))"

lemma restOfLine_ge: "p \<le> restOfLine t p"
  by (induction t p rule: restOfLine.induct) (subst restOfLine.simps, auto)

lemma restOfLine_le: "p \<le> length t \<Longrightarrow> restOfLine t p \<le> length t"
  by (induction t p rule: restOfLine.induct) (subst restOfLine.simps, auto)

lemma spaceRest_ge: "p \<le> spaceRest t p"
  by (induction t p rule: spaceRest.induct) (subst spaceRest.simps, auto)

lemma envVarAt_bounds:
  "envVarAt t i p = Some m \<Longrightarrow> i \<le> p \<Longrightarrow> eIndex m = i \<and> 2 \<le> eLength m \<and> i + eLength m \<le> length t"
  using restOfLine_ge [of "the (paramName t p) + 1" t] restOfLine_le [of "the (paramName t p) + 1" t]
  by (auto simp: envVarAt_def is_char_def split: option.splits if_splits dest!: paramName_bounds)

lemma envMatchAt_bounds:
  "envMatchAt isFile t p = Some m \<Longrightarrow> eIndex m = p \<and> 2 \<le> eLength m \<and> p + eLength m \<le> length t"
  using spaceRest_ge [of "p + 6" t] envVarAt_bounds [of t p "spaceRest t (p + 6)" m]
    envVarAt_bounds [of t p p m]
  by (auto simp: envMatchAt_def split: if_splits option.splits)

lemma findEnv_bounds:
  "findEnv isFile t p = Some m \<Longrightarrow> p \<le> eIndex m \<and> 2 \<le> eLength m \<and> eIndex m + eLength m \<le> length t"
proof (induction isFile t p rule: findEnv.induct)
  case (1 isFile t p)
  show ?case
  proof (cases "envMatchAt isFile t p")
    case None
    with "1.prems" have "findEnv isFile t (p + 1) = Some m" "\<not> length t < p"
      by (subst (asm) findEnv.simps, simp split: if_splits)+
    with "1.IH" None show ?thesis by fastforce
  next
    case (Some m')
    with "1.prems" have "m' = m"
      by (subst (asm) findEnv.simps, simp split: if_splits)
    with Some envMatchAt_bounds [of isFile t p m] show ?thesis by simp
  qed
qed

function setEnvLoop ::
  "bool \<Rightarrow> rune list \<Rightarrow> EnvMatch option \<Rightarrow> env \<Rightarrow> error option \<times> env" where
  "setEnvLoop isFile payload None env = (None, env)"
| "setEnvLoop isFile payload (Some m) env =
     (case parserHandler env (eValue m) unQuoted of
        Inl e \<Rightarrow> (Some e, env)
      | Inr v \<Rightarrow> setEnvLoop isFile payload (nextEnv isFile payload m) (Setenv env (eName m) v))"
  by pat_completeness auto
termination
proof (relation "measure (\<lambda>(f, t, mo, e). case mo of None \<Rightarrow> 0 | Some m \<Rightarrow> Suc (Suc (length t) - eIndex m))",
    goal_cases)
  case 1
  show ?case by simp
next
  case (2 isFile payload m env v)
  show ?case
  proof (cases "nextEnv isFile payload m")
    case None
    then show ?thesis by simp
  next
    case (Some m')
    from findEnv_bounds [OF Some [unfolded nextEnv_def]] Some show ?thesis
      by (auto split: if_splits)
  qed
qed

definition setEnv :: "rune list \<Rightarrow> bool \<Rightarrow> env \<Rightarrow> error option \<times> env" where
  "setEnv payload isFile env =
     (case findEnv isFile payload 0 of
        None \<Rightarrow> (Some (runes ''Invalid env assignment syntax''), env)
      | Some m \<Rightarrow> setEnvLoop isFile payload (Some m) env)"

section \<open>The expansion call\<close>

record Config =
  file' :: "rune list"
  readFromStdin :: bool
  list :: bool
  preserve :: bool
  ignoreQuotes :: bool
  envOverrides :: "rune list list"
  envFiles :: "rune list list"
  interpret' :: "rune list"
  editInPlace :: bool

text \<open>
  What \<^verbatim>\<open>GetOutput\<close> reads and writes besides its argument: the process environment, the
  files (reading a path gives its bytes or the error of the read; \<open>creatable\<close> tells whether
  \<^verbatim>\<open>os.Create\<close> succeeds on a path), standard input and standard output. Files and
  streams hold bytes.
\<close>

record World =
  environ :: env
  files :: "rune list \<Rightarrow> error + byte list"
  creatable :: "rune list \<Rightarrow> bool"
  stdin :: "error + byte list"
  stdout :: "byte list"

text \<open>\<^verbatim>\<open>readToRunes\<close> reads all the bytes and returns \<^verbatim>\<open>[]rune(string(bytes))\<close>.\<close>

definition readToRunes :: "World \<Rightarrow> rune list \<Rightarrow> bool \<Rightarrow> error + rune list" where
  "readToRunes w path stdIn =
     (case (if stdIn then stdin w else files w path) of
        Inl err \<Rightarrow> Inl err
      | Inr content \<Rightarrow> Inr (decodeRunes content))"

record ParamJson =
  Param :: "rune list"
  Index :: nat

definition listParams :: "Param list \<Rightarrow> ParamJson list" where
  "listParams params = map (\<lambda>param. \<lparr>Param = ParamId param, Index = fst (ParamPosition param)\<rparr>) params"

text \<open>\<^verbatim>\<open>strings.Join(overrides, "\n")\<close>.\<close>

fun joinLines :: "rune list list \<Rightarrow> rune list" where
  "joinLines [] = []"
| "joinLines [x] = x"
| "joinLines (x # y # ys) = x @ [newline] @ joinLines (y # ys)"

text \<open>
  The loop over \<^verbatim>\<open>config.envFiles\<close>. \<^verbatim>\<open>setEnv\<close> gets \<^verbatim>\<open>string(envFile)\<close>, which the
  regular expression engine reads as runes.
\<close>

fun setEnvFiles :: "rune list list \<Rightarrow> World \<Rightarrow> error option \<times> World" where
  "setEnvFiles [] w = (None, w)"
| "setEnvFiles (envFilePath # paths) w =
     (case files w envFilePath of
        Inl envFileErr \<Rightarrow> (Some envFileErr, w)
      | Inr envFile \<Rightarrow>
         (case setEnv (decodeRunes envFile) True (environ w) of
            (Some e, env') \<Rightarrow> (Some e, w\<lparr>environ := env'\<rparr>)
          | (None, env') \<Rightarrow> setEnvFiles paths (w\<lparr>environ := env'\<rparr>)))"

text \<open>
  The loop that prints the document: the text between the references, and for each
  reference its value, or its own text when the value is empty and \<^verbatim>\<open>preserve\<close> is set.
  A key missing from a Go map reads as the empty string.
\<close>

fun printLoop ::
  "rune list \<Rightarrow> AssocArray \<Rightarrow> bool \<Rightarrow> Param list \<Rightarrow> nat \<Rightarrow> rune list \<Rightarrow> rune list" where
  "printLoop payload vals preserved [] firstIndex out = out @ drop firstIndex payload"
| "printLoop payload vals preserved (param # params) firstIndex out =
     (let out1 = (if fst (ParamPosition param) \<noteq> firstIndex
                  then out @ slice payload firstIndex (fst (ParamPosition param))
                  else out);
          val = (case vals (ParamId param) of None \<Rightarrow> [] | Some v \<Rightarrow> v)
      in printLoop payload vals preserved params (snd (ParamPosition param))
           (if val = [] \<and> preserved then out1 @ ParamId param else out1 @ val))"

text \<open>
  Everything \<^verbatim>\<open>GetOutput\<close> does once the environment is prepared (from
  \<^verbatim>\<open>params := findParams(payload, validSlices)\<close> on). \<open>marshal\<close> stands for
  \<^verbatim>\<open>json.MarshalIndent\<close> on the list of records, which gives bytes. What is printed of
  the document and of the values are strings made of runes: the bytes written are
  their encoding (the strings printed one after the other give the same bytes, since
  the encoding goes rune by rune).
\<close>

definition expand ::
  "(ParamJson list \<Rightarrow> byte list) \<Rightarrow> Config \<Rightarrow> rune list \<Rightarrow> (nat \<times> nat) list \<Rightarrow> World
     \<Rightarrow> error option \<times> World" where
  "expand marshal config payload validSlices w =
     (let params = findParams payload validSlices in
      if list config then (None, w\<lparr>stdout := stdout w @ marshal (listParams params)\<rparr>)
      else if params \<noteq> [] then
        (case mapperHandler (environ w) params of
           Inl e \<Rightarrow> (Some e, w)
         | Inr vals \<Rightarrow>
             let out = encodeRunes (printLoop payload vals (preserve config) params 0 []) in
             if editInPlace config then
               (if creatable w (file' config)
                then (None, w\<lparr>files := (files w)(file' config := Inr out)\<rparr>)
                else (None, w))
             else (None, w\<lparr>stdout := stdout w @ out\<rparr>))
      else if \<not> editInPlace config then (None, w\<lparr>stdout := stdout w @ encodeRunes payload\<rparr>)
      else (None, w))"

text \<open>The slices of the document in which references are looked for.\<close>

definition validSlicesFor :: "Config \<Rightarrow> rune list \<Rightarrow> error + (nat \<times> nat) list" where
  "validSlicesFor config payload =
     (if ignoreQuotes config then Inr [(0, length payload)]
      else (case tokenizeByQuotes payload of
              Inl e \<Rightarrow> Inl e
            | Inr segments \<Rightarrow> Inr (getValidSlices segments)))"

text \<open>The assignments made before the expansion: the files first, then the overrides.\<close>

definition prepareEnv :: "Config \<Rightarrow> World \<Rightarrow> error option \<times> World" where
  "prepareEnv config w =
     (case setEnvFiles (envFiles config) w of
        (Some e, w1) \<Rightarrow> (Some e, w1)
      | (None, w1) \<Rightarrow>
          if envOverrides config \<noteq> [] then
            (case setEnv (joinLines (envOverrides config)) False (environ w1) of
               (e, env2) \<Rightarrow> (e, w1\<lparr>environ := env2\<rparr>))
          else (None, w1))"

definition GetOutput ::
  "(ParamJson list \<Rightarrow> byte list) \<Rightarrow> Config \<Rightarrow> World \<Rightarrow> error option \<times> World" where
  "GetOutput marshal config w =
     (case readToRunes w (file' config) (readFromStdin config) of
        Inl e \<Rightarrow> (Some e, w)
      | Inr payload \<Rightarrow>
         (case validSlicesFor config payload of
            Inl e \<Rightarrow> (Some e, w)
          | Inr validSlices \<Rightarrow>
             (case prepareEnv config w of
                (Some e, w1) \<Rightarrow> (Some e, w1)
              | (None, w1) \<Rightarrow> expand marshal config payload validSlices w1)))"

section \<open>Evaluating the model\<close>

lemmas parse_simps = runes_def findParam.simps finderAt_def is_char_def unescapedToken.simps
  paramName_def nameRest.simps nameStart_def nameChar_def bracedTail.simps slice_def
  findParser.simps parserAt_def defaultsOperationAt_def isDefaultsSign_def lazyToClose.simps
  endAnchor_def matchString_def handleDefaults_def LookupEnv_def Getenv_def nextParam_def
  parseParam.simps parseEmbeddedParams.simps

text \<open>The environment of the truth table: \<^verbatim>\<open>FOO=foo\<close>, \<^verbatim>\<open>BAZ\<close> set and empty, \<^verbatim>\<open>BAR\<close> unset.\<close>

definition tableEnv :: "env \<Rightarrow> bool" where
  "tableEnv env \<longleftrightarrow>
     env (runes ''FOO'') = Some (runes ''foo'') \<and> env (runes ''BAZ'') = Some [] \<and>
     env (runes ''BAR'') = None"

lemma table1: "tableEnv env \<Longrightarrow> parseParam env (runes ''${FOO:-bar}'') = Inr (runes ''foo'')"
  by (simp add: tableEnv_def parse_simps)
lemma table2: "tableEnv env \<Longrightarrow> parseParam env (runes ''${BAZ:-bar}'') = Inr (runes ''bar'')"
  by (simp add: tableEnv_def parse_simps)
lemma table3: "tableEnv env \<Longrightarrow> parseParam env (runes ''${BAZ-bar}'') = Inr []"
  by (simp add: tableEnv_def parse_simps)
lemma table4: "tableEnv env \<Longrightarrow> parseParam env (runes ''${FOO:+bar}'') = Inr (runes ''bar'')"
  by (simp add: tableEnv_def parse_simps)
lemma table5: "tableEnv env \<Longrightarrow> parseParam env (runes ''${BAR:+bar}'') = Inr []"
  by (simp add: tableEnv_def parse_simps)
lemma table6: "tableEnv env \<Longrightarrow> parseParam env (runes ''${BAZ+bar}'') = Inr (runes ''bar'')"
  by (simp add: tableEnv_def parse_simps)
lemma table7: "tableEnv env \<Longrightarrow> parseParam env (runes ''${BAR:?bar}'') = Inl (runes ''bar'')"
  by (simp add: tableEnv_def parse_simps)
lemma table8: "tableEnv env \<Longrightarrow> parseParam env (runes ''${BAZ?bar}'') = Inr []"
  by (simp add: tableEnv_def parse_simps)


lemmas find_simps = findParams_def MatchesToIndices_def getValidSlices_def InRange_def
  tokenizeByQuotes_def findQuote.simps quoteMatchAt_def lazyToSingle.simps lazyToDouble.simps nextQuote_def



lemmas utf8_simps = asciiBytes_def decodeRunes.simps DecodeRune_def encodeRunes_def encodeRune_def
  continuation_def acceptLo_def acceptHi_def validUTF8.simps



section \<open>Facts about the tokenizer\<close>

text \<open>The number of consecutive backslashes that end just before position \<open>p\<close>.\<close>

fun backslashRun :: "rune list \<Rightarrow> nat \<Rightarrow> nat" where
  "backslashRun t 0 = 0"
| "backslashRun t (Suc p) = (if t ! p = backslash then Suc (backslashRun t p) else 0)"

lemma unescapedToken_even: "unescapedToken t p \<longleftrightarrow> even (backslashRun t p)"
proof (induction t p rule: unescapedToken.induct)
  case (1 t p)
  show ?case
  proof (cases p)
    case 0
    then show ?thesis by (simp add: unescapedToken.simps)
  next
    case (Suc q)
    show ?thesis
    proof (cases q)
      case 0
      with Suc show ?thesis by (simp add: unescapedToken.simps)
    next
      case (Suc r)
      with \<open>p = Suc q\<close> "1.IH" show ?thesis
        by (subst unescapedToken.simps) auto
    qed
  qed
qed

lemma lazyToSingle_first:
  "lazyToSingle t p = Some e \<Longrightarrow>
     p < e \<and> e \<le> length t \<and> t ! (e - 1) = squote \<and> (\<forall>k. p \<le> k \<and> k < e - 1 \<longrightarrow> t ! k \<noteq> squote)"
proof (induction t p rule: lazyToSingle.induct)
  case (1 t p)
  show ?case
  proof (cases "t ! p = squote")
    case True
    with "1.prems" show ?thesis
      by (subst (asm) lazyToSingle.simps) (auto split: if_splits)
  next
    case False
    with "1.prems" have p: "\<not> length t \<le> p" and r: "lazyToSingle t (p + 1) = Some e"
      by (subst (asm) lazyToSingle.simps, simp split: if_splits)+
    from "1.IH" [OF p False r] have ih: "p + 1 < e" "e \<le> length t" "t ! (e - 1) = squote"
      "\<And>k. p + 1 \<le> k \<Longrightarrow> k < e - 1 \<Longrightarrow> t ! k \<noteq> squote" by auto
    have "t ! k \<noteq> squote" if "p \<le> k" "k < e - 1" for k
    proof (cases "k = p")
      case True
      with False show ?thesis by simp
    next
      case False
      with that have "p + 1 \<le> k" by simp
      from ih(4) [OF this that(2)] show ?thesis .
    qed
    with ih show ?thesis by simp
  qed
qed

section \<open>Facts about assignments and the resolver\<close>


lemma parseParam_no_reference:
  "findParam param 0 = None \<Longrightarrow> parseParam env param = Inr param"
  by (subst parseParam.simps) simp

lemma parseParam_reinserts:
  assumes "findParam param 0 = Some m" "parseParam env param = Inr r"
  shows "\<exists>val. r = take (fIndex m) param @ val @ drop (fIndex m + fLength m) param"
  using assms(2)
  by (subst (asm) parseParam.simps) (auto simp: assms(1) split: sum.splits)


section \<open>Facts about strings and runes\<close>









section \<open>Facts about the expansion call\<close>





lemma mapperHandler_empty: "mapperHandler env [] = Inr Map.empty"
  by (simp add: mapperHandler_def mapParamValues_def)


lemma mapParamValuesLoop_failure:
  assumes "p \<in> set params" "parseParam env (ParamId p) = Inl e" "vals (ParamId p) = None"
  shows "\<exists>e'. fst (mapParamValuesLoop params (\<lambda>param s. (parseParam env param, s)) vals ()) = Inl e'"
  using assms
proof (induction params arbitrary: vals)
  case Nil
  then show ?case by simp
next
  case (Cons q params)
  show ?case
  proof (cases "vals (ParamId q)")
    case (Some v)
    with Cons.prems have "p \<in> set params" by auto
    from Cons.IH [of vals, OF this Cons.prems(2,3)] Some show ?thesis by simp
  next
    case None
    show ?thesis
    proof (cases "parseParam env (ParamId q)")
      case (Inl e')
      with None show ?thesis by simp
    next
      case (Inr v)
      with Cons.prems have pq: "ParamId p \<noteq> ParamId q" "p \<in> set params" by auto
      then have "(vals(ParamId q \<mapsto> v)) (ParamId p) = None" using Cons.prems(3) by simp
      note ih = Cons.IH [of "vals(ParamId q \<mapsto> v)", OF pq(2) Cons.prems(2) this]
      have eq: "mapParamValuesLoop (q # params) (\<lambda>param s. (parseParam env param, s)) vals ()
          = mapParamValuesLoop params (\<lambda>param s. (parseParam env param, s))
              (vals(ParamId q \<mapsto> v)) ()"
        using None Inr by simp
      show ?thesis unfolding eq by (rule ih)
    qed
  qed
qed

lemma mapperHandler_failure:
  assumes "p \<in> set params" "parseParam env (ParamId p) = Inl e"
  shows "\<exists>e'. mapperHandler env params = Inl e'"
  using mapParamValuesLoop_failure [OF assms, of Map.empty]
  by (simp add: mapperHandler_def mapParamValues_def)

lemma resolution_failure_prints_nothing:
  assumes "\<not> list config" "p \<in> set (findParams payload validSlices)"
    "parseParam (environ w) (ParamId p) = Inl e"
  shows "\<exists>e'. expand marshal config payload validSlices w = (Some e', w)"
proof -
  from mapperHandler_failure [OF assms(2,3)] obtain e'
    where "mapperHandler (environ w) (findParams payload validSlices) = Inl e'" by blast
  moreover from assms(2) have "findParams payload validSlices \<noteq> []" by auto
  ultimately show ?thesis using assms(1) by (auto simp: expand_def)
qed


text \<open>A configuration and a world to run the call on: one readable document, no assignments.\<close>

definition demoConfig :: Config where
  "demoConfig = \<lparr>file' = runes ''doc'', readFromStdin = False, list = False, preserve = False,
     ignoreQuotes = False, envOverrides = [], envFiles = [], interpret' = [],
     editInPlace = False\<rparr>"

definition demoWorld :: "byte list \<Rightarrow> World" where
  "demoWorld doc = \<lparr>environ = Map.empty,
     files = (\<lambda>path. if path = runes ''doc'' then Inr doc else Inl (runes ''no such file'')),
     creatable = (\<lambda>path. True), stdin = Inr [], stdout = []\<rparr>"




section \<open>References written out\<close>

text \<open>The reference \<^verbatim>\<open>${name rest}\<close>, and what \<^verbatim>\<open>paramName\<close> accepts as a whole.\<close>

definition bracedRef :: "rune list \<Rightarrow> rune list \<Rightarrow> rune list" where
  "bracedRef name rest = [dollar, lbrace] @ name @ rest @ [rbrace]"

definition validName :: "rune list \<Rightarrow> bool" where
  "validName name \<longleftrightarrow> name \<noteq> [] \<and> nameStart (hd name) \<and> list_all nameChar name"

lemma nameRest_run:
  "list_all nameChar xs \<Longrightarrow> post = [] \<or> \<not> nameChar (hd post) \<Longrightarrow>
     nameRest (pre @ xs @ post) (length pre) = length pre + length xs"
proof (induction xs arbitrary: pre)
  case Nil
  then show ?case
    by (subst nameRest.simps) (auto simp: nth_append hd_conv_nth)
next
  case (Cons x xs)
  from Cons.prems have x: "nameChar x" and xs: "list_all nameChar xs" by simp_all
  have "nameRest (pre @ (x # xs) @ post) (length pre)
      = nameRest ((pre @ [x]) @ xs @ post) (length (pre @ [x]))"
    using x by (subst nameRest.simps) (simp add: nth_append)
  also have "\<dots> = length (pre @ [x]) + length xs"
    by (rule Cons.IH [OF xs Cons.prems(2)])
  finally show ?case by simp
qed

lemma paramName_run:
  assumes "validName name" "post = [] \<or> \<not> nameChar (hd post)"
  shows "paramName (pre @ name @ post) (length pre) = Some (length pre + length name)"
proof -
  from assms(1) obtain x xs where n: "name = x # xs" "nameStart x" "list_all nameChar xs"
    by (cases name) (auto simp: validName_def)
  have "nameRest ((pre @ [x]) @ xs @ post) (length (pre @ [x])) = length (pre @ [x]) + length xs"
    by (rule nameRest_run [OF n(3) assms(2)])
  then show ?thesis using n by (simp add: paramName_def nth_append)
qed

lemma lazyToClose_run:
  "newline \<notin> set dv \<Longrightarrow>
     lazyToClose (pre @ dv @ [rbrace]) (length pre) = Some (length pre + length dv)"
proof (induction dv arbitrary: pre)
  case Nil
  show ?case by (subst lazyToClose.simps) (simp add: endAnchor_def nth_append)
next
  case (Cons x dv)
  from Cons.prems have x: "x \<noteq> newline" and dv: "newline \<notin> set dv" by auto
  have e: "\<not> endAnchor (pre @ (x # dv) @ [rbrace]) (length pre + 1)"
    by (cases dv) (auto simp: endAnchor_def nth_append)
  have "lazyToClose (pre @ (x # dv) @ [rbrace]) (length pre)
      = lazyToClose ((pre @ [x]) @ dv @ [rbrace]) (length (pre @ [x]))"
    using x e by (subst lazyToClose.simps) (simp add: nth_append)
  also have "\<dots> = Some (length (pre @ [x]) + length dv)"
    by (rule Cons.IH [OF dv])
  finally show ?case by simp
qed

lemma bracedTail_plain:
  "dollar \<notin> set xs \<Longrightarrow> rbrace \<notin> set xs \<Longrightarrow>
     bracedTail (pre @ xs @ [rbrace]) (length pre) 0 = Some (length pre + length xs + 1)"
proof (induction xs arbitrary: pre)
  case Nil
  show ?case by (subst bracedTail.simps) (simp add: is_char_def nth_append)
next
  case (Cons x xs)
  from Cons.prems have x: "x \<noteq> dollar" "x \<noteq> rbrace" and xs: "dollar \<notin> set xs" "rbrace \<notin> set xs"
    by auto
  have ih: "bracedTail ((pre @ [x]) @ xs @ [rbrace]) (length (pre @ [x])) 0
      = Some (length (pre @ [x]) + length xs + 1)"
    by (rule Cons.IH [OF xs])
  show ?case
    using x ih by (subst bracedTail.simps) (simp add: is_char_def nth_append)
qed


lemma findParam_at_start:
  assumes "findParam s 0 = Some m" "fLength m = length s"
  shows "finderAt s 0 = Some m"
proof (cases "finderAt s 0")
  case None
  with assms(1) have "findParam s (0 + 1) = Some m"
    by (subst (asm) findParam.simps) simp
  from findParam_bounds [OF this] assms(2) have False by auto
  then show ?thesis ..
next
  case (Some m')
  with assms(1) show ?thesis by (subst (asm) findParam.simps) simp
qed

lemma bracedRef_finder:
  assumes n: "validName name" and r: "rest = [] \<or> \<not> nameChar (hd rest)"
    and f: "findParam (bracedRef name rest) 0 = Some m" "fLength m = length (bracedRef name rest)"
  shows "fIndex m = 0 \<and> bare m = [] \<and> braced m = name \<and>
         matchString (bracedRef name rest) m = bracedRef name rest"
proof -
  let ?s = "bracedRef name rest"
  have s: "?s = [dollar, lbrace] @ name @ (rest @ [rbrace])" by (simp add: bracedRef_def)
  have post: "rest @ [rbrace] = [] \<or> \<not> nameChar (hd (rest @ [rbrace]))"
    using r by (cases rest) (auto simp: nameChar_def nameStart_def)
  have pn: "paramName ?s (0 + 2) = Some (2 + length name)"
    using paramName_run [OF n post, of "[dollar, lbrace]"] by (simp add: s numeral_2_eq_2)
  have p1: "paramName ?s (0 + 1) = None"
    by (simp add: paramName_def bracedRef_def nameStart_def)
  from findParam_at_start [OF f] have fa: "finderAt ?s 0 = Some m" .
  have d: "is_char ?s 0 dollar" "is_char ?s (0 + 1) lbrace"
    by (simp_all add: is_char_def bracedRef_def)
  from fa obtain e where m: "m = \<lparr>fIndex = 0, fLength = e - 0, bare = [],
      braced = slice ?s (0 + 2) (2 + length name)\<rparr>"
    unfolding finderAt_def using p1 pn d
    by (auto split: option.splits if_splits)
  have sl: "slice ?s (0 + 2) (2 + length name) = name"
    by (simp add: slice_def bracedRef_def)
  from m sl f(2) show ?thesis by (simp add: matchString_def slice_def)
qed

lemma bracedRef_parser:
  assumes n: "validName name" and op: "op = [63] \<or> op = [58, 63]"
    and dv: "newline \<notin> set dv"
  shows "findParser (bracedRef name (op @ dv)) 0 =
           Some \<lparr>defaults = op @ dv, defaultsOperation = op, defaultsValue = dv\<rparr>"
proof -
  let ?s = "bracedRef name (op @ dv)"
  let ?q = "2 + length name"
  have s: "?s = [dollar, lbrace] @ name @ (op @ dv @ [rbrace])" by (simp add: bracedRef_def)
  have s2: "?s = ([dollar, lbrace] @ name @ op) @ dv @ [rbrace]" by (simp add: bracedRef_def)
  have post: "op @ dv @ [rbrace] = [] \<or> \<not> nameChar (hd (op @ dv @ [rbrace]))"
    using op by (auto simp: nameChar_def nameStart_def)
  have pn: "paramName ?s (0 + 2) = Some ?q"
    using paramName_run [OF n post, of "[dollar, lbrace]"] by (simp add: s numeral_2_eq_2)
  have d: "is_char ?s 0 dollar" "is_char ?s (0 + 1) lbrace"
    by (simp_all add: is_char_def bracedRef_def)
  have dop: "defaultsOperationAt ?s ?q = Some (?q + length op)"
    using op by (auto simp: defaultsOperationAt_def is_char_def isDefaultsSign_def bracedRef_def
        nth_append)
  have lc: "lazyToClose ?s (?q + length op) = Some (?q + length op + length dv)"
    using lazyToClose_run [OF dv, of "[dollar, lbrace] @ name @ op"]
    by (simp add: s2 numeral_2_eq_2)
  have sl: "slice ?s ?q (?q + length op + length dv) = op @ dv"
    "slice ?s ?q (?q + length op) = op"
    "slice ?s (?q + length op) (?q + length op + length dv) = dv"
    by (simp_all add: slice_def bracedRef_def)
  have "parserAt ?s 0 = Some \<lparr>defaults = op @ dv, defaultsOperation = op, defaultsValue = dv\<rparr>"
    unfolding parserAt_def using d pn dop lc sl by simp
  then show ?thesis by (subst findParser.simps) simp
qed

text \<open>
  A reference \<^verbatim>\<open>${name?dv}\<close> or \<^verbatim>\<open>${name:?dv}\<close> that the finder emits as a whole, with no
  line break in \<open>dv\<close>, whose fallback is taken: \<^verbatim>\<open>parseParam\<close> fails, with the resolved
  \<open>dv\<close> as the message, or with the message of a failure inside \<open>dv\<close>.
\<close>

lemma required_variable_fails:
  assumes n: "validName name" and op: "op = [63] \<or> op = [58, 63]"
    and dv: "newline \<notin> set dv"
    and f: "findParam (bracedRef name (op @ dv)) 0 = Some m"
      "fLength m = length (bracedRef name (op @ dv))"
    and fb: "env name = None \<or> (op = [58, 63] \<and> env name = Some [])"
  shows "parseParam env (bracedRef name (op @ dv)) =
           Inl (case parseEmbeddedParams env dv of Inl e \<Rightarrow> e | Inr v \<Rightarrow> v)"
proof -
  let ?s = "bracedRef name (op @ dv)"
  have r: "op @ dv = [] \<or> \<not> nameChar (hd (op @ dv))"
    using op by (auto simp: nameChar_def nameStart_def)
  from bracedRef_finder [OF n r f] have m: "fIndex m = 0" "bare m = []" "braced m = name"
    "matchString ?s m = ?s" by simp_all
  from n have ne: "name \<noteq> []" by (simp add: validName_def)
  note p = bracedRef_parser [OF n op dv]
  have h: "handleDefaults env \<lparr>defaults = op @ dv, defaultsOperation = op, defaultsValue = dv\<rparr> name
      = Inr (case env name of None \<Rightarrow> [] | Some v \<Rightarrow> v, False, True)"
    using op fb by (auto simp: handleDefaults_def LookupEnv_def)
  show ?thesis
    using op by (subst parseParam.simps) (auto simp: f(1) m ne p h split: sum.splits)
qed


lemma findParser_None:
  "findParser t p = None \<longleftrightarrow> (\<forall>q. p \<le> q \<and> q \<le> length t \<longrightarrow> parserAt t q = None)"
proof (induction t p rule: findParser.induct)
  case (1 t p)
  show ?case
  proof (cases "length t < p")
    case True
    then show ?thesis by (subst findParser.simps) auto
  next
    case False
    show ?thesis
    proof (cases "parserAt t p")
      case None
      have "findParser t p = findParser t (p + 1)"
        using False None by (subst findParser.simps) simp
      also have "\<dots> = None \<longleftrightarrow> (\<forall>q. p + 1 \<le> q \<and> q \<le> length t \<longrightarrow> parserAt t q = None)"
        using "1.IH" [OF False None] .
      also have "\<dots> \<longleftrightarrow> (\<forall>q. p \<le> q \<and> q \<le> length t \<longrightarrow> parserAt t q = None)"
        using None by (metis Suc_eq_plus1 Suc_leI le_neq_implies_less order.trans le_add1)
      finally show ?thesis .
    next
      case (Some m)
      with False show ?thesis by (subst findParser.simps) auto
    qed
  qed
qed

text \<open>
  A reference \<^verbatim>\<open>${name rest}\<close> whose \<open>rest\<close> starts with no operator and holds neither \<^verbatim>\<open>$\<close>
  nor \<^verbatim>\<open>}\<close>: the finder emits it as a whole and \<^verbatim>\<open>parseParam\<close> gives the value of the
  variable.
\<close>

lemma unrecognized_trailing_text_dropped:
  assumes n: "validName name"
    and r: "rest \<noteq> []" "\<not> nameChar (hd rest)" "dollar \<notin> set rest" "rbrace \<notin> set rest"
    and o: "defaultsOperationAt rest 0 = None"
  shows "findParam (bracedRef name rest) 0 =
           Some \<lparr>fIndex = 0, fLength = length (bracedRef name rest), bare = [], braced = name\<rparr>
         \<and> parseParam env (bracedRef name rest) = Inr (Getenv env name)"
proof -
  let ?s = "bracedRef name rest"
  let ?q = "2 + length name"
  have s: "?s = [dollar, lbrace] @ name @ (rest @ [rbrace])" by (simp add: bracedRef_def)
  have s2: "?s = ([dollar, lbrace] @ name) @ rest @ [rbrace]" by (simp add: bracedRef_def)
  from r obtain c cs where rc: "rest = c # cs" by (cases rest) auto
  have post: "rest @ [rbrace] = [] \<or> \<not> nameChar (hd (rest @ [rbrace]))"
    using r by (simp add: rc)
  have pn: "paramName ?s (0 + 2) = Some ?q"
    using paramName_run [OF n post, of "[dollar, lbrace]"] by (simp add: s numeral_2_eq_2)
  have p1: "paramName ?s (0 + 1) = None"
    by (simp add: paramName_def bracedRef_def nameStart_def)
  have d: "is_char ?s 0 dollar" "is_char ?s (0 + 1) lbrace" "unescapedToken ?s 0"
    by (simp_all add: is_char_def bracedRef_def unescapedToken.simps)
  have bt: "bracedTail ?s ?q 0 = Some (length ?s)"
    using bracedTail_plain [OF r(3,4), of "[dollar, lbrace] @ name"]
    by (simp add: s2 numeral_2_eq_2)
  have sl: "slice ?s (0 + 2) ?q = name" by (simp add: slice_def bracedRef_def)
  have fa: "finderAt ?s 0 = Some \<lparr>fIndex = 0, fLength = length ?s, bare = [], braced = name\<rparr>"
    unfolding finderAt_def using p1 pn d bt sl by simp
  then have fp: "findParam ?s 0 = Some \<lparr>fIndex = 0, fLength = length ?s, bare = [], braced = name\<rparr>"
    by (subst findParam.simps) simp
  have sq: "?s ! ?q = c" "?s ! (?q + 1) = (cs @ [rbrace]) ! 0" "?q + 1 < length ?s"
    by (simp_all add: bracedRef_def rc nth_append)
  have dop: "defaultsOperationAt ?s ?q = None"
    using o r(4) unfolding defaultsOperationAt_def is_char_def sq
    by (cases cs) (auto simp: rc isDefaultsSign_def split: if_splits)
  have nq: "\<not> is_char ?s ?q rbrace"
    using r(4) by (simp add: is_char_def bracedRef_def rc nth_append)
  have p0: "parserAt ?s 0 = None"
    unfolding parserAt_def using pn dop nq by simp
  have nd: "dollar \<notin> set (tl ?s)"
    using n r(3) by (auto simp: bracedRef_def validName_def list_all_iff nameChar_def nameStart_def)
  have pp: "parserAt ?s p = None" if "0 < p" for p
  proof -
    have "\<not> is_char ?s p dollar"
    proof
      assume "is_char ?s p dollar"
      then have "p < length ?s" "?s ! p = dollar" by (simp_all add: is_char_def)
      with that have "tl ?s ! (p - 1) = dollar" "p - 1 < length (tl ?s)"
        by (simp_all add: nth_tl)
      then have "dollar \<in> set (tl ?s)" by (metis nth_mem)
      with nd show False ..
    qed
    then show ?thesis by (simp add: parserAt_def)
  qed
  have fps: "findParser ?s 0 = None"
    unfolding findParser_None using p0 pp by (metis not_gr_zero)
  from n have ne: "name \<noteq> []" by (simp add: validName_def)
  have "parseParam env ?s = Inr (Getenv env name)"
    by (subst parseParam.simps) (simp add: fp matchString_def slice_def fps ne)
  with fp show ?thesis by simp
qed

section \<open>The first reference of a text\<close>

text \<open>
  What the claims say of the resolver, stated without its loop. \<open>resolveEach\<close> replaces
  each of the given positions of a text by the resolution of the text at that position
  and keeps the text between them; \<open>resolveAll\<close> does so at every match of the finder
  pattern in the text.
\<close>

fun resolveEach :: "env \<Rightarrow> rune list \<Rightarrow> (nat \<times> nat) list \<Rightarrow> nat \<Rightarrow> error + rune list" where
  "resolveEach env val [] lastIndex = Inr (drop lastIndex val)"
| "resolveEach env val (position # positions) lastIndex =
     (case parseParam env (slice val (fst position) (snd position)) of
        Inl e \<Rightarrow> Inl e
      | Inr r \<Rightarrow>
         (case resolveEach env val positions (snd position) of
            Inl e \<Rightarrow> Inl e
          | Inr rest \<Rightarrow> Inr (slice val lastIndex (fst position) @ r @ rest)))"

definition resolveAll :: "env \<Rightarrow> rune list \<Rightarrow> error + rune list" where
  "resolveAll env val = resolveEach env val (MatchesToIndices val) 0"

text \<open>
  The value of a reference \<open>m\<close> whose text is \<open>reference\<close>: the value of the variable for
  a bare reference and for a braced one without a default operator; otherwise what
  \<^verbatim>\<open>handleDefaults\<close> decides, the value of the variable or the default expression with all
  its references resolved, which is the message of the failure when the operator is
  \<^verbatim>\<open>?\<close> or \<^verbatim>\<open>:?\<close>.
\<close>

definition referenceValue :: "env \<Rightarrow> FinderMatch \<Rightarrow> rune list \<Rightarrow> error + rune list" where
  "referenceValue env m reference =
     (if bare m \<noteq> [] then Inr (Getenv env (bare m))
      else case findParser reference 0 of
             None \<Rightarrow> Inr (Getenv env (braced m))
           | Some pm \<Rightarrow>
               if defaults pm = [] then Inr (Getenv env (braced m))
               else (case handleDefaults env pm (braced m) of
                       Inl e \<Rightarrow> Inl e
                     | Inr (val, resolved, failing) \<Rightarrow>
                         if resolved then Inr val
                         else (case resolveAll env (defaultsValue pm) of
                                 Inl e \<Rightarrow> Inl e
                               | Inr d \<Rightarrow> if failing then Inl d else Inr d)))"

lemma matchesLoop_append:
  "matchesLoop t mo slices = slices @ matchesLoop t mo []"
proof -
  have "\<forall>slices. matchesLoop t mo slices = slices @ matchesLoop t mo []"
  proof (rule matchesLoop.induct
      [where P = "\<lambda>t mo s. \<forall>slices. matchesLoop t mo slices = slices @ matchesLoop t mo []"
         and ?a0.0 = t and ?a1.0 = mo and ?a2.0 = "[]"], goal_cases)
    case (1 payload slices)
    show ?case by simp
  next
    case (2 payload m slices)
    show ?case
    proof
      fix s
      let ?x = "(fIndex m, fIndex m + fLength m)"
      from 2 have ih: "\<And>s. matchesLoop payload (nextParam payload m) s
          = s @ matchesLoop payload (nextParam payload m) []" by blast
      have a: "matchesLoop payload (Some m) s
          = (s @ [?x]) @ matchesLoop payload (nextParam payload m) []"
        using ih [of "s @ [?x]"] by simp
      have b: "matchesLoop payload (Some m) []
          = [?x] @ matchesLoop payload (nextParam payload m) []"
        using ih [of "[?x]"] by simp
      show "matchesLoop payload (Some m) s = s @ matchesLoop payload (Some m) []"
        unfolding a b by simp
    qed
  qed
  then show ?thesis by blast
qed

lemma matchesLoop_Some:
  "matchesLoop t (Some m) [] = (fIndex m, fIndex m + fLength m) # matchesLoop t (nextParam t m) []"
  using matchesLoop_append [of t "nextParam t m" "[(fIndex m, fIndex m + fLength m)]"] by simp

lemma replaceEmbedded_resolveEach:
  "replaceEmbedded env val mo lastIndex acc =
     (case resolveEach env val (matchesLoop val mo []) lastIndex of
        Inl e \<Rightarrow> Inl e
      | Inr r \<Rightarrow> Inr (acc @ r))"
proof -
  have "\<forall>lastIndex acc. replaceEmbedded env val mo lastIndex acc =
     (case resolveEach env val (matchesLoop val mo []) lastIndex of
        Inl e \<Rightarrow> Inl e
      | Inr r \<Rightarrow> Inr (acc @ r))"
  proof (rule matchesLoop.induct
      [where P = "\<lambda>val mo s. \<forall>lastIndex acc. replaceEmbedded env val mo lastIndex acc =
          (case resolveEach env val (matchesLoop val mo []) lastIndex of
             Inl e \<Rightarrow> Inl e
           | Inr r \<Rightarrow> Inr (acc @ r))"
         and ?a0.0 = val and ?a1.0 = mo and ?a2.0 = "[]"], goal_cases)
    case (1 payload slices)
    show ?case by simp
  next
    case (2 payload m slices)
    show ?case
      by (intro allI, subst matchesLoop_Some)
         (simp add: 2 matchString_def split: sum.splits)
  qed
  then show ?thesis by blast
qed

lemma parseEmbeddedParams_resolveAll: "parseEmbeddedParams env val = resolveAll env val"
  by (simp add: parseEmbeddedParams.simps replaceEmbedded_resolveEach resolveAll_def
      MatchesToIndices_def split: sum.splits)

lemma finderAt_groups:
  "finderAt t p = Some m \<Longrightarrow> bare m \<noteq> [] \<or> braced m \<noteq> []"
  by (auto simp: finderAt_def slice_def split: option.splits if_splits dest!: paramName_bounds)

lemma findParam_groups:
  "findParam t p = Some m \<Longrightarrow> bare m \<noteq> [] \<or> braced m \<noteq> []"
proof (induction t p rule: findParam.induct)
  case (1 t p)
  show ?case
  proof (cases "finderAt t p")
    case None
    with "1.prems" have "findParam t (p + 1) = Some m" "\<not> length t < p"
      by (subst (asm) findParam.simps, simp split: if_splits)+
    with "1.IH" None show ?thesis by blast
  next
    case (Some m')
    with "1.prems" have "m' = m"
      by (subst (asm) findParam.simps, simp split: if_splits)
    with Some finderAt_groups [of t p m] show ?thesis by simp
  qed
qed

lemma handleDefaults_failing:
  "handleDefaults env pm name = Inr (val, resolved, failing) \<Longrightarrow> failing \<Longrightarrow> \<not> resolved"
  by (auto simp: handleDefaults_def Let_def split: if_splits prod.splits)

lemma parseParam_first_reference:
  assumes "findParam param 0 = Some m"
  shows "parseParam env param =
           (case referenceValue env m (matchString param m) of
              Inl e \<Rightarrow> Inl e
            | Inr val \<Rightarrow> Inr (take (fIndex m) param @ val @ drop (fIndex m + fLength m) param))"
proof (cases "bare m \<noteq> []")
  case True
  with assms show ?thesis
    by (subst parseParam.simps) (simp add: referenceValue_def)
next
  case False
  with findParam_groups [OF assms] have b: "bare m = []" "braced m \<noteq> []" by auto
  show ?thesis
  proof (cases "findParser (matchString param m) 0")
    case None
    with assms b show ?thesis
      by (subst parseParam.simps) (simp add: referenceValue_def)
  next
    case (Some pm)
    show ?thesis
    proof (cases "defaults pm = []")
      case True
      with assms b Some show ?thesis
        by (subst parseParam.simps) (simp add: referenceValue_def)
    next
      case False
      show ?thesis
      proof (cases "handleDefaults env pm (braced m)")
        case (Inl e)
        with assms b Some False show ?thesis
          by (subst parseParam.simps) (simp add: referenceValue_def)
      next
        case (Inr x)
        obtain val resolved failing where x: "x = (val, resolved, failing)" by (cases x)
        from handleDefaults_failing [OF Inr [unfolded x]] have f: "failing \<Longrightarrow> \<not> resolved" .
        show ?thesis
        proof (cases resolved)
          case True
          with f have "\<not> failing" by blast
          with assms b Some False Inr x True show ?thesis
            by (subst parseParam.simps) (simp add: referenceValue_def)
        next
          case nr: False
          with assms b Some False Inr x show ?thesis
            by (subst parseParam.simps)
               (simp add: referenceValue_def parseEmbeddedParams_resolveAll split: sum.splits)
        qed
      qed
    qed
  qed
qed

text \<open>
  A bare reference after a text without \<^verbatim>\<open>$\<close>: the finder finds it first, and
  \<^verbatim>\<open>parseParam\<close> replaces it by the value of the variable; what follows it is kept.
\<close>

lemma finderAt_no_dollar: "\<not> is_char t p dollar \<Longrightarrow> finderAt t p = None"
  by (simp add: finderAt_def)

lemma findParam_skip:
  assumes "\<forall>q. p \<le> q \<and> q < i \<longrightarrow> finderAt t q = None" "p \<le> i" "i \<le> length t"
  shows "findParam t p = findParam t i"
  using assms
proof (induction "i - p" arbitrary: p)
  case 0
  then show ?case by simp
next
  case (Suc n)
  then have "finderAt t p = None" "\<not> length t < p" by auto
  then have "findParam t p = findParam t (p + 1)" by (subst findParam.simps) simp
  also have "\<dots> = findParam t i" using Suc by (intro Suc.hyps(1)) auto
  finally show ?case .
qed

lemma unescapedToken_prefix:
  "p \<le> length pre \<Longrightarrow> unescapedToken (pre @ post) p = unescapedToken pre p"
proof (induction pre p rule: unescapedToken.induct)
  case (1 t p)
  show ?case
  proof (cases "p = 0")
    case True
    then show ?thesis by (simp add: unescapedToken.simps)
  next
    case False
    with "1.prems" have "p - 1 < length t" by arith
    then have n: "(t @ post) ! (p - 1) = t ! (p - 1)" by (simp add: nth_append)
    show ?thesis
    proof (cases "t ! (p - 1) \<noteq> backslash")
      case True
      with False n show ?thesis by (subst unescapedToken.simps, subst (2) unescapedToken.simps) simp
    next
      case b: False
      show ?thesis
      proof (cases "2 \<le> p \<and> t ! (p - 2) = backslash")
        case True
        with "1.prems" have "p - 2 < length t" by arith
        then have n2: "(t @ post) ! (p - 2) = t ! (p - 2)" by (simp add: nth_append)
        from True "1.prems" have "unescapedToken (t @ post) (p - 2) = unescapedToken t (p - 2)"
          using "1.IH" False b by simp
        with False b True n n2 show ?thesis
          by (subst unescapedToken.simps, subst (2) unescapedToken.simps) simp
      next
        case nn: False
        have "2 \<le> p \<Longrightarrow> p - 2 < length t" using "1.prems" by arith
        then have n2: "2 \<le> p \<Longrightarrow> (t @ post) ! (p - 2) = t ! (p - 2)"
          by (simp add: nth_append)
        with False b nn n show ?thesis
          by (subst unescapedToken.simps, subst (2) unescapedToken.simps) auto
      qed
    qed
  qed
qed

lemma bare_reference_found:
  assumes n: "validName name" and pre: "dollar \<notin> set pre" "unescapedToken pre (length pre)"
    and post: "post = [] \<or> \<not> nameChar (hd post)"
  shows "findParam (pre @ [dollar] @ name @ post) 0 =
           Some \<lparr>fIndex = length pre, fLength = 1 + length name, bare = name, braced = []\<rparr>"
proof -
  let ?t = "pre @ [dollar] @ name @ post"
  have "pre ! q \<noteq> dollar" if "q < length pre" for q
    using pre(1) nth_mem [OF that] by metis
  then have "\<forall>q. 0 \<le> q \<and> q < length pre \<longrightarrow> finderAt ?t q = None"
    by (auto intro!: finderAt_no_dollar simp: is_char_def nth_append)
  then have e: "findParam ?t 0 = findParam ?t (length pre)"
    by (rule findParam_skip) simp_all
  have d: "is_char ?t (length pre) dollar" by (simp add: is_char_def nth_append)
  have u: "unescapedToken ?t (length pre)"
    using pre(2) by (simp add: unescapedToken_prefix)
  have p: "paramName ?t (length pre + 1) = Some (length pre + 1 + length name)"
    using paramName_run [OF n post, of "pre @ [dollar]"] by simp
  have sl: "slice ?t (length pre + 1) (length pre + 1 + length name) = name"
    by (simp add: slice_def)
  have f: "finderAt ?t (length pre) =
      Some \<lparr>fIndex = length pre, fLength = 1 + length name, bare = name, braced = []\<rparr>"
    using d u p sl by (simp add: finderAt_def)
  show ?thesis unfolding e using f by (subst findParam.simps) simp
qed

lemma bare_reference_expanded:
  assumes n: "validName name" and pre: "dollar \<notin> set pre" "unescapedToken pre (length pre)"
    and post: "post = [] \<or> \<not> nameChar (hd post)"
  shows "parseParam env (pre @ [dollar] @ name @ post) = Inr (pre @ Getenv env name @ post)"
proof -
  from n have "name \<noteq> []" by (simp add: validName_def)
  with bare_reference_found [OF assms] show ?thesis
    by (subst parseParam.simps) simp
qed

text \<open>An environment with \<^verbatim>\<open>X=a\<close>, \<^verbatim>\<open>Y=b\<close>, \<^verbatim>\<open>Z=c\<close> and \<^verbatim>\<open>W\<close> unset.\<close>

definition demoEnv :: env where
  "demoEnv = [runes ''X'' \<mapsto> runes ''a'', runes ''Y'' \<mapsto> runes ''b'',
     runes ''Z'' \<mapsto> runes ''c'']"


section \<open>The claims\<close>

text \<open>
  C1. The operator truth table. In every environment where \<^verbatim>\<open>FOO\<close> is \<^verbatim>\<open>foo\<close>, \<^verbatim>\<open>BAZ\<close> is
  set to the empty string and \<^verbatim>\<open>BAR\<close> is unset, \<^verbatim>\<open>parseParam\<close> gives: \<^verbatim>\<open>${FOO:-bar}\<close> is
  \<^verbatim>\<open>foo\<close>, \<^verbatim>\<open>${BAZ:-bar}\<close> is \<^verbatim>\<open>bar\<close>, \<^verbatim>\<open>${BAZ-bar}\<close> is empty, \<^verbatim>\<open>${FOO:+bar}\<close> is
  \<^verbatim>\<open>bar\<close>, \<^verbatim>\<open>${BAR:+bar}\<close> is empty, \<^verbatim>\<open>${BAZ+bar}\<close> is \<^verbatim>\<open>bar\<close>, \<^verbatim>\<open>${BAR:?bar}\<close> panics
  with the message \<^verbatim>\<open>bar\<close>, and \<^verbatim>\<open>${BAZ?bar}\<close> is empty.
\<close>

theorem operator_truth_table:
  assumes "tableEnv env"
  shows "parseParam env (runes ''${FOO:-bar}'') = Inr (runes ''foo'') \<and>
         parseParam env (runes ''${BAZ:-bar}'') = Inr (runes ''bar'') \<and>
         parseParam env (runes ''${BAZ-bar}'') = Inr [] \<and>
         parseParam env (runes ''${FOO:+bar}'') = Inr (runes ''bar'') \<and>
         parseParam env (runes ''${BAR:+bar}'') = Inr [] \<and>
         parseParam env (runes ''${BAZ+bar}'') = Inr (runes ''bar'') \<and>
         parseParam env (runes ''${BAR:?bar}'') = Inl (runes ''bar'') \<and>
         parseParam env (runes ''${BAZ?bar}'') = Inr []"
  using assms table1 table2 table3 table4 table5 table6 table7 table8
  by blast

theorem operator_truth_table_witness:
  "tableEnv [runes ''FOO'' \<mapsto> runes ''foo'', runes ''BAZ'' \<mapsto> []] \<and>
   parseParam [runes ''FOO'' \<mapsto> runes ''foo'', runes ''BAZ'' \<mapsto> []] (runes ''${FOO:-bar}'')
     = Inr (runes ''foo'') \<and>
   parseParam [runes ''FOO'' \<mapsto> runes ''foo'', runes ''BAZ'' \<mapsto> []] (runes ''${BAR:?bar}'')
     = Inl (runes ''bar'')"
proof -
  have h: "tableEnv [runes ''FOO'' \<mapsto> runes ''foo'', runes ''BAZ'' \<mapsto> []]"
    by (simp add: tableEnv_def runes_def)
  from operator_truth_table [OF h] h show ?thesis by blast
qed

text \<open>
  C2, at a reference whose default expression holds a line break: \<^verbatim>\<open>${BAR?a\<close>, newline,
  \<^verbatim>\<open>b}\<close> with \<^verbatim>\<open>BAR\<close> unset. The finder emits the reference, the parser pattern does
  not match it (its \<^verbatim>\<open>.*?\<close> stops at the line break), and \<^verbatim>\<open>parseParam\<close> returns the empty
  value of \<^verbatim>\<open>BAR\<close> instead of failing; on one line the same reference fails with its text.
  In a document, \<^verbatim>\<open>GetOutput\<close> prints the text around the multi-line reference and does not
  fail; with the reference on one line it fails with \<^verbatim>\<open>a b\<close> and prints nothing.
\<close>

theorem required_variable_multiline_failing_input:
  "findParam (runes ''${BAR?a'' @ [newline] @ runes ''b}'') 0
     = Some \<lparr>fIndex = 0, fLength = 10, bare = [], braced = runes ''BAR''\<rparr> \<and>
   findParser (runes ''${BAR?a'' @ [newline] @ runes ''b}'') 0 = None \<and>
   parseParam Map.empty (runes ''${BAR?a'' @ [newline] @ runes ''b}'') = Inr [] \<and>
   parseParam Map.empty (runes ''${BAR?a b}'') = Inl (runes ''a b'') \<and>
   GetOutput marshal demoConfig (demoWorld (asciiBytes ''x ${BAR?a'' @ [10] @ asciiBytes ''b} y''))
     = (None, (demoWorld (asciiBytes ''x ${BAR?a'' @ [10] @ asciiBytes ''b} y''))
                \<lparr>stdout := asciiBytes ''x  y''\<rparr>) \<and>
   GetOutput marshal demoConfig (demoWorld (asciiBytes ''x ${BAR?a b} y''))
     = (Some (runes ''a b''), demoWorld (asciiBytes ''x ${BAR?a b} y''))"
  by (simp add: GetOutput_def demoConfig_def demoWorld_def readToRunes_def validSlicesFor_def
      prepareEnv_def expand_def mapperHandler_def mapParamValues_def parse_simps find_simps
      utf8_simps)


text \<open>
  C3. Building the value map calls the resolver once for each distinct reference text, in
  the order of the first occurrences, and maps every reference text of the list to the
  value of that call: with a resolver that computes \<open>f\<close> and records its calls, the
  record is \<open>firstOccurrences\<close> of the texts, which has no duplicates and holds every text.
\<close>

theorem mapParamValues_resolves_once:
  "mapParamValues params (recording f) [] =
     (Inr (\<lambda>k. if k \<in> ParamId ` set params then Some (f k) else None),
      firstOccurrences (map ParamId params))
   \<and> distinct (firstOccurrences (map ParamId params))
   \<and> set (firstOccurrences (map ParamId params)) = ParamId ` set params"
  by (simp add: mapParamValues_def mapParamValuesLoop_recording distinct_firstOccurrences
      set_firstOccurrences)








text \<open>
  C5, as stated, fails: in \<^verbatim>\<open>'\''\<close> the single-quoted segment is \<open>[0, 3)\<close>, and its closing
  quote, at index 2, follows one backslash.
\<close>

theorem single_quoted_closing_counterexample:
  "tokenizeByQuotes [squote, backslash, squote, squote] =
     Inr [\<lparr>Position = (0, 3), SegmentType = singleQuoted\<rparr>,
          \<lparr>Position = (3, 4), SegmentType = unQuoted\<rparr>]
   \<and> [squote, backslash, squote, squote] ! 2 = squote
   \<and> backslashRun [squote, backslash, squote, squote] 2 = 1
   \<and> \<not> unescapedToken [squote, backslash, squote, squote] 2"
  by (simp add: tokenizeByQuotes_def findQuote.simps quoteMatchAt_def is_char_def
      unescapedToken.simps lazyToSingle.simps lazyToDouble.simps nextQuote_def numeral_2_eq_2)


text \<open>
  C5, amended. Every single-quoted segment \<open>[s, e)\<close> of the tokenization starts at a single
  quote that follows an even number of backslashes and ends at the first single quote
  after it, whether or not that quote follows a backslash.
\<close>

theorem single_quoted_segment_ends_at_first_quote:
  assumes "tokenizeByQuotes payload = Inr segs" "seg \<in> set segs"
    "SegmentType seg = singleQuoted" "Position seg = (s, e)"
  shows "s + 2 \<le> e \<and> e \<le> length payload \<and>
         payload ! s = squote \<and> even (backslashRun payload s) \<and>
         payload ! (e - 1) = squote \<and>
         (\<forall>k. s < k \<and> k < e - 1 \<longrightarrow> payload ! k \<noteq> squote)"
proof -
  from tokenizeByQuotes_inv [of payload] assms(1,2) have "quotedAt payload seg" by auto
  with assms(3,4) have q: "is_char payload s squote" "unescapedToken payload s"
    "lazyToSingle payload (s + 1) = Some e"
    by (simp_all add: quotedAt_def)
  from lazyToSingle_first [OF q(3)] q(1,2) show ?thesis
    by (auto simp: is_char_def unescapedToken_even)
qed

theorem single_quoted_segment_ends_at_first_quote_witness:
  "tokenizeByQuotes [squote, backslash, squote, squote] =
     Inr [\<lparr>Position = (0, 3), SegmentType = singleQuoted\<rparr>,
          \<lparr>Position = (3, 4), SegmentType = unQuoted\<rparr>]
   \<and> 0 + 2 \<le> (3::nat) \<and> 3 \<le> length [squote, backslash, squote, squote]
   \<and> [squote, backslash, squote, squote] ! 0 = squote
   \<and> even (backslashRun [squote, backslash, squote, squote] 0)
   \<and> [squote, backslash, squote, squote] ! (3 - 1) = squote
   \<and> [squote, backslash, squote, squote] ! 1 \<noteq> squote"
proof -
  have t: "tokenizeByQuotes [squote, backslash, squote, squote] =
     Inr [\<lparr>Position = (0, 3), SegmentType = singleQuoted\<rparr>,
          \<lparr>Position = (3, 4), SegmentType = unQuoted\<rparr>]"
    by (simp add: tokenizeByQuotes_def findQuote.simps quoteMatchAt_def is_char_def
      unescapedToken.simps lazyToSingle.simps lazyToDouble.simps nextQuote_def)
  from single_quoted_segment_ends_at_first_quote
         [OF t, of "\<lparr>Position = (0, 3), SegmentType = singleQuoted\<rparr>" 0 3] t
  show ?thesis by simp
qed

text \<open>
  C6. With quoting honoured (the valid slices are those of the tokenization), no reference
  returned by \<^verbatim>\<open>findParams\<close> starts inside a single-quoted segment.
\<close>

theorem no_param_starts_in_single_quotes:
  assumes "tokenizeByQuotes payload = Inr segments"
    and "param \<in> set (findParams payload (getValidSlices segments))"
    and "segment \<in> set segments" "SegmentType segment = singleQuoted"
  shows "\<not> InRange (fst (ParamPosition param)) (Position segment)"
proof
  assume i: "InRange (fst (ParamPosition param)) (Position segment)"
  from tokenizeByQuotes_inv [of payload] assms(1)
  have c: "chain 0 segments (length payload)" by auto
  from findParams_start_valid [OF assms(2)] obtain v
    where v: "v \<in> set (getValidSlices segments)" "InRange (fst (ParamPosition param)) v"
    by blast
  have "\<exists>s\<in>set segments. SegmentType s \<noteq> singleQuoted \<and>
           InRange (fst (ParamPosition param)) (Position s)"
    by (rule getValidSlicesLoop_covered [of "[]" _ _ segments v])
       (use v in \<open>auto simp: getValidSlices_def\<close>)
  then obtain s where s: "s \<in> set segments" "SegmentType s \<noteq> singleQuoted"
    "InRange (fst (ParamPosition param)) (Position s)" by blast
  from chain_disjoint [OF c s(1) assms(3) s(3) i] s(2) assms(4) show False by simp
qed

theorem no_param_starts_in_single_quotes_witness:
  "tokenizeByQuotes ([squote] @ runes ''$A'' @ [squote] @ runes ''$B'') =
     Inr [\<lparr>Position = (0, 4), SegmentType = singleQuoted\<rparr>,
          \<lparr>Position = (4, 6), SegmentType = unQuoted\<rparr>]
   \<and> findParams ([squote] @ runes ''$A'' @ [squote] @ runes ''$B'')
        (getValidSlices [\<lparr>Position = (0, 4), SegmentType = singleQuoted\<rparr>,
                         \<lparr>Position = (4, 6), SegmentType = unQuoted\<rparr>])
       = [\<lparr>ParamId = runes ''$B'', ParamPosition = (4, 6)\<rparr>]
   \<and> \<not> InRange (fst (ParamPosition \<lparr>ParamId = runes ''$B'', ParamPosition = (4, 6)\<rparr>))
            (Position \<lparr>Position = (0, 4), SegmentType = singleQuoted\<rparr>)"
proof -
  have t: "tokenizeByQuotes ([squote] @ runes ''$A'' @ [squote] @ runes ''$B'') =
     Inr [\<lparr>Position = (0, 4), SegmentType = singleQuoted\<rparr>,
          \<lparr>Position = (4, 6), SegmentType = unQuoted\<rparr>]"
    by (simp add: parse_simps find_simps)
  have f: "findParams ([squote] @ runes ''$A'' @ [squote] @ runes ''$B'')
        (getValidSlices [\<lparr>Position = (0, 4), SegmentType = singleQuoted\<rparr>,
                         \<lparr>Position = (4, 6), SegmentType = unQuoted\<rparr>])
       = [\<lparr>ParamId = runes ''$B'', ParamPosition = (4, 6)\<rparr>]"
    by (simp add: parse_simps find_simps)
  have m: "\<lparr>ParamId = runes ''$B'', ParamPosition = (4, 6)\<rparr>
          \<in> set (findParams ([squote] @ runes ''$A'' @ [squote] @ runes ''$B'')
        (getValidSlices [\<lparr>Position = (0, 4), SegmentType = singleQuoted\<rparr>,
                         \<lparr>Position = (4, 6), SegmentType = unQuoted\<rparr>]))"
    by (subst f) simp
  have s: "\<lparr>Position = (0, 4), SegmentType = singleQuoted\<rparr>
          \<in> set [\<lparr>Position = (0, 4), SegmentType = singleQuoted\<rparr>,
                  \<lparr>Position = (4, 6), SegmentType = unQuoted\<rparr>]"
    by simp
  have "\<not> InRange (fst (ParamPosition \<lparr>ParamId = runes ''$B'', ParamPosition = (4, 6)\<rparr>))
            (Position \<lparr>Position = (0, 4), SegmentType = singleQuoted\<rparr>)"
    by (rule no_param_starts_in_single_quotes [OF t m s]) simp
  with t f show ?thesis by blast
qed


text \<open>
  C7. For every text the tokenizer returns (it never reaches its panic), and the segments
  it returns partition \<open>[0, length payload)\<close>: the first starts at 0, every segment is
  non-empty and ends where the next one starts, and the last ends at \<open>length payload\<close>
  (\<open>chain 0 segs (length payload)\<close>); so they are ascending, without gaps or overlaps.
\<close>

theorem tokenizeByQuotes_partitions:
  "\<exists>segs. tokenizeByQuotes payload = Inr segs \<and> chain 0 segs (length payload)"
  using tokenizeByQuotes_inv [of payload] by blast

text \<open>
  C8, as stated, fails: a document that is not valid UTF-8 and holds no reference is
  printed changed. For the bytes \<^verbatim>\<open>61 ff 62\<close> \<^verbatim>\<open>readToRunes\<close> returns the runes \<^verbatim>\<open>a\<close>,
  \<^verbatim>\<open>U+FFFD\<close>, \<^verbatim>\<open>b\<close>, the finder discovers no reference in them, and \<^verbatim>\<open>GetOutput\<close> prints
  the bytes \<^verbatim>\<open>61 ef bf bd 62\<close>.
\<close>

theorem GetOutput_invalid_utf8_counterexample:
  "files (demoWorld [97, 255, 98]) (file' demoConfig) = Inr [97, 255, 98] \<and>
   readToRunes (demoWorld [97, 255, 98]) (file' demoConfig) (readFromStdin demoConfig)
     = Inr [97, 65533, 98] \<and>
   validSlicesFor demoConfig [97, 65533, 98] = Inr [(0, 3)] \<and>
   findParams [97, 65533, 98] [(0, 3)] = [] \<and>
   GetOutput marshal demoConfig (demoWorld [97, 255, 98])
     = (None, (demoWorld [97, 255, 98])\<lparr>stdout := [97, 239, 191, 189, 98]\<rparr>)"
  by (simp add: GetOutput_def demoConfig_def demoWorld_def readToRunes_def validSlicesFor_def
      prepareEnv_def expand_def parse_simps find_simps utf8_simps)






text \<open>
  C9, at a reference whose unrecognized trailing text holds a nested reference with a
  default operator: \<^verbatim>\<open>${FOO#${BAR:-x}}\<close> with \<^verbatim>\<open>FOO\<close> unset. The parser pattern, which is
  searched in the reference and not anchored at its start, matches from the nested
  \<^verbatim>\<open>${BAR:-\<close> to the end; \<^verbatim>\<open>:-\<close> is then applied to \<^verbatim>\<open>FOO\<close> with the default \<^verbatim>\<open>x}\<close>, and the
  result is \<^verbatim>\<open>x}\<close> instead of the empty value of \<^verbatim>\<open>FOO\<close>. Without the nested reference
  the trailing text is dropped: \<^verbatim>\<open>${FOO#foo}\<close> gives the value of \<^verbatim>\<open>FOO\<close>.
\<close>

theorem unrecognized_operator_nested_failing_input:
  "findParam (runes ''${FOO#${BAR:-x}}'') 0
     = Some \<lparr>fIndex = 0, fLength = 16, bare = [], braced = runes ''FOO''\<rparr> \<and>
   findParser (runes ''${FOO#${BAR:-x}}'') 0
     = Some \<lparr>defaults = runes '':-x}'', defaultsOperation = runes '':-'',
              defaultsValue = runes ''x}''\<rparr> \<and>
   parseParam Map.empty (runes ''${FOO#${BAR:-x}}'') = Inr (runes ''x}'') \<and>
   parseParam Map.empty (runes ''${FOO#foo}'') = Inr []"
  by (simp add: parse_simps)


text \<open>
  C10. \<^verbatim>\<open>parseParam\<close> returns its input when the finder finds no reference in it.
  Otherwise, with \<open>m\<close> the first match of the finder, it returns the input with this
  reference, and nothing else, replaced by the value of the reference, or fails as that
  value does: the text before and after the first reference is kept as it is, and the
  references of the default expression of the first reference are all resolved
  (\<open>referenceValue\<close>, \<open>resolveAll\<close>). In particular, in a text without \<^verbatim>\<open>$\<close> followed by a
  bare reference and any further text, only that reference is replaced, by the value of
  its variable.
\<close>

theorem parseParam_expands_first_reference_only:
  "(findParam param 0 = None \<longrightarrow> parseParam env param = Inr param) \<and>
   (\<forall>m. findParam param 0 = Some m \<longrightarrow>
      parseParam env param =
        (case referenceValue env m (matchString param m) of
           Inl e \<Rightarrow> Inl e
         | Inr val \<Rightarrow> Inr (take (fIndex m) param @ val @ drop (fIndex m + fLength m) param))) \<and>
   (validName name \<and> dollar \<notin> set pre \<and> unescapedToken pre (length pre) \<and>
    (post = [] \<or> \<not> nameChar (hd post)) \<longrightarrow>
      parseParam env (pre @ [dollar] @ name @ post) = Inr (pre @ Getenv env name @ post))"
  using parseParam_no_reference parseParam_first_reference bare_reference_expanded by blast

theorem parseParam_expands_first_reference_only_witness:
  "findParam (runes ''${W:-$Y} $Z'') 0
     = Some \<lparr>fIndex = 0, fLength = 8, bare = [], braced = runes ''W''\<rparr> \<and>
   referenceValue demoEnv \<lparr>fIndex = 0, fLength = 8, bare = [], braced = runes ''W''\<rparr>
       (runes ''${W:-$Y}'') = Inr (runes ''b'') \<and>
   parseParam demoEnv (runes ''${W:-$Y} $Z'') = Inr (runes ''b $Z'') \<and>
   findParam (runes ''no reference'') 0 = None \<and>
   parseParam demoEnv (runes ''no reference'') = Inr (runes ''no reference'') \<and>
   validName (runes ''X'') \<and> dollar \<notin> set (runes ''A='') \<and>
   unescapedToken (runes ''A='') (length (runes ''A='')) \<and> \<not> nameChar (hd (runes '' $Y'')) \<and>
   parseParam demoEnv (runes ''A=$X $Y'') = Inr (runes ''A=a $Y'')"
proof -
  let ?m = "\<lparr>fIndex = 0, fLength = 8, bare = [], braced = runes ''W''\<rparr>"
  have a: "findParam (runes ''${W:-$Y} $Z'') 0 = Some ?m"
    by (simp add: parse_simps)
  have s: "matchString (runes ''${W:-$Y} $Z'') ?m = runes ''${W:-$Y}''"
    by (simp add: matchString_def slice_def runes_def)
  have v: "referenceValue demoEnv ?m (runes ''${W:-$Y}'') = Inr (runes ''b'')"
    by (simp add: referenceValue_def resolveAll_def MatchesToIndices_def demoEnv_def parse_simps)
  have c: "findParam (runes ''no reference'') 0 = None"
    by (simp add: parse_simps)
  from parseParam_expands_first_reference_only [of "runes ''${W:-$Y} $Z''" demoEnv] a
  have "parseParam demoEnv (runes ''${W:-$Y} $Z'') =
        (case referenceValue demoEnv ?m (matchString (runes ''${W:-$Y} $Z'') ?m) of
           Inl e \<Rightarrow> Inl e
         | Inr val \<Rightarrow> Inr (take (fIndex ?m) (runes ''${W:-$Y} $Z'') @ val @
                          drop (fIndex ?m + fLength ?m) (runes ''${W:-$Y} $Z'')))"
    by blast
  then have b: "parseParam demoEnv (runes ''${W:-$Y} $Z'') = Inr (runes ''b $Z'')"
    unfolding s v by (simp add: runes_def)
  from parseParam_expands_first_reference_only [of "runes ''no reference''" demoEnv] c
  have d: "parseParam demoEnv (runes ''no reference'') = Inr (runes ''no reference'')" by blast
  have h: "validName (runes ''X'')" "dollar \<notin> set (runes ''A='')"
    "unescapedToken (runes ''A='') (length (runes ''A=''))" "\<not> nameChar (hd (runes '' $Y''))"
    by (simp_all add: validName_def runes_def nameStart_def nameChar_def unescapedToken.simps)
  from parseParam_expands_first_reference_only
         [of _ demoEnv "runes ''X''" "runes ''A=''" "runes '' $Y''"] h
  have "parseParam demoEnv (runes ''A='' @ [dollar] @ runes ''X'' @ runes '' $Y'')
      = Inr (runes ''A='' @ Getenv demoEnv (runes ''X'') @ runes '' $Y'')" by blast
  then have e: "parseParam demoEnv (runes ''A=$X $Y'') = Inr (runes ''A=a $Y'')"
    by (simp add: runes_def Getenv_def LookupEnv_def demoEnv_def)
  from a v b c d h e show ?thesis by blast
qed


end
